theory Spec2Isabelle
  imports Main
begin

section \<open>PromptPilot: prompt version control over the local cache (src/lib/storage.ts)\<close>

text \<open>
  The theory embeds \<^verbatim>\<open>versionStorage\<close> and the \<^verbatim>\<open>localStorage\<close> wrapper of
  \<^verbatim>\<open>src/lib/storage.ts\<close>, and \<^verbatim>\<open>createGroup\<close>/\<^verbatim>\<open>convertGroupToLocal\<close> of
  \<^verbatim>\<open>supabase-prompt-service.ts\<close>.

  Conventions of the embedding.
  \<^item> The entry \<^verbatim>\<open>promptpilot_prompt_groups\<close> of \<^verbatim>\<open>window.localStorage\<close> is the only
    state. It is held in parsed form: \<open>None\<close> when the key is absent or its text does not
    parse, \<open>Some groups\<close> otherwise.
  \<^item> Every operation takes an \<open>env\<close>: what the call reads from outside the store
    (\<^verbatim>\<open>Date.now()\<close>, \<^verbatim>\<open>generateId()\<close>, whether \<^verbatim>\<open>setItem\<close> succeeds, whether Supabase is
    configured and what the remote inserts answer).
  \<^item> An operation is modelled up to its \<^verbatim>\<open>return\<close>. The promises it starts
    (\<^verbatim>\<open>syncFromSupabase\<close>, the callbacks of \<^verbatim>\<open>syncToSupabase\<close>) run after it returned;
    the push pass and its callbacks are modelled separately by \<open>syncToSupabase\<close> below,
    and a run of \<^verbatim>\<open>addVersion\<close> calls with the callbacks of the pushes and pulls between
    them by \<open>step\<close>. The theorems about a sequence of \<^verbatim>\<open>setVersionStatus\<close> calls are about
    runs in which no such callback writes the store between the calls (always so when
    Supabase is not configured).
  \<^item> A JavaScript number that is a version number is a \<open>jsnumber\<close>: an integer, or the
    \<^verbatim>\<open>-Infinity\<close> that \<^verbatim>\<open>Math.max()\<close> of no arguments gives, or the \<^verbatim>\<open>null\<close> that
    \<^verbatim>\<open>JSON.stringify\<close> writes for it. \<open>Num n\<close> stands for the double that holds the integer
    \<open>n\<close>; adding 1 rounds as the addition of doubles does (\<open>to_double\<close>).
  \<^item> The fields \<^verbatim>\<open>metadata\<close> of a version and \<^verbatim>\<open>templates\<close> of a group are never read or
    written by the operations below and are left out.
\<close>

subsection \<open>Types\<close>

datatype version_status = Draft | Current | Production

datatype jsnumber = Num int | NegInfinity | JNull

datatype created_type = Manual | Improved | Generated | Rewritten

record PromptVersion =
  id_v :: string
  promptId :: string
  version :: jsnumber
  name_v :: string
  content :: string
  description_v :: "string option"
  status :: version_status
  parentVersionId :: "string option"
  timestamp_v :: int
  createdFrom :: "created_type option"

text \<open>
  \<^verbatim>\<open>_syncedVersionIds?: Set<string> | string[]\<close>. A JavaScript \<^verbatim>\<open>Set\<close> keeps its members in
  insertion order without repetition; it is a list here, built only by \<open>new_Set\<close> and
  \<open>Set_add\<close>.
\<close>

datatype synced_ids = NoIds | IdSet "string list" | IdArray "string list"

record PromptGroup =
  id_g :: string
  name_g :: string
  description_g :: "string option"
  currentVersionId :: string
  productionVersionId :: "string option"
  versions :: "PromptVersion list"
  tags :: "string list option"
  timestamp_g :: int
  lastModified :: int
  supabase_id :: "string option"
  syncedVersionIds :: synced_ids

type_synonym storage = "PromptGroup list option"

record env =
  now :: int
  generateId :: "nat \<Rightarrow> string"
  setItem_ok :: bool
  supabaseConfigured :: bool
  group_insert :: "(string \<times> int \<times> int) option"
  version_insert :: "(string \<times> int) option"

text \<open>
  \<open>now\<close> is what \<^verbatim>\<open>Date.now()\<close> returns during the call (the readings of one call are
  only stored, never compared, and are taken equal); \<open>generateId e k\<close> is the result of
  the \<open>k\<close>-th call of \<^verbatim>\<open>generateId()\<close>; \<open>setItem_ok\<close> tells whether
  \<^verbatim>\<open>window.localStorage.setItem\<close> returns (it throws when the quota is exceeded);
  \<open>group_insert\<close> and \<open>version_insert\<close> are the answers of the remote store to the two
  inserts of \<^verbatim>\<open>createGroup\<close>: \<open>None\<close> for an error, otherwise the server-generated id and
  the timestamps (in milliseconds) of the row, whose other columns are as inserted.
\<close>

subsection \<open>JavaScript helpers\<close>

definition Set_has :: "string list \<Rightarrow> string \<Rightarrow> bool" where
  "Set_has s x = (x \<in> set s)"

definition Set_add :: "string list \<Rightarrow> string \<Rightarrow> string list" where
  "Set_add s x = (if Set_has s x then s else s @ [x])"

definition new_Set :: "string list \<Rightarrow> string list" where
  "new_Set xs = foldl Set_add [] xs"

definition Array_from :: "string list \<Rightarrow> string list" where
  "Array_from s = s"

fun findIndex :: "('a \<Rightarrow> bool) \<Rightarrow> 'a list \<Rightarrow> nat option" where
  "findIndex P [] = None"
| "findIndex P (x # xs) = (if P x then Some 0 else map_option Suc (findIndex P xs))"

fun ToNumber :: "jsnumber \<Rightarrow> jsnumber" where
  "ToNumber JNull = Num 0"
| "ToNumber x = x"

definition js_less :: "jsnumber \<Rightarrow> jsnumber \<Rightarrow> bool" where
  "js_less a b =
     (case (ToNumber a, ToNumber b) of
        (Num x, Num y) \<Rightarrow> x < y
      | (NegInfinity, Num y) \<Rightarrow> True
      | _ \<Rightarrow> False)"

definition Math_max :: "jsnumber list \<Rightarrow> jsnumber" where
  "Math_max xs = foldl (\<lambda>highest x. if js_less highest x then ToNumber x else highest) NegInfinity xs"

text \<open>
  The integers that are doubles: every integer of magnitude below \<open>2^53\<close>, and beyond it
  the products of a 53-bit significand and a power of two. For a magnitude \<open>x\<close>,
  \<open>binary_exponent x\<close> is that power and \<open>round_magnitude x\<close> the double nearest to \<open>x\<close>, the
  one of even significand when two are as near: the rounding that every arithmetic
  operation on doubles applies to its exact result. \<open>to_double\<close> is the same for an
  integer of either sign.
\<close>

function binary_exponent :: "int \<Rightarrow> nat" where
  "binary_exponent x = (if x < 2 ^ 53 then 0 else Suc (binary_exponent (x div 2)))"
  by pat_completeness auto
termination
  by (relation "measure nat") auto

declare binary_exponent.simps [simp del]

definition round_magnitude :: "int \<Rightarrow> int" where
  "round_magnitude x =
     (let e = binary_exponent x;
          q = x div 2 ^ e;
          r = x mod 2 ^ e
      in if 2 * r > 2 ^ e \<or> (2 * r = 2 ^ e \<and> odd q) then (q + 1) * 2 ^ e else q * 2 ^ e)"

definition to_double :: "int \<Rightarrow> int" where
  "to_double x = (if x < 0 then - round_magnitude (- x) else round_magnitude x)"

text \<open>\<^verbatim>\<open>x + 1\<close> for a version number \<open>x\<close>; \<^verbatim>\<open>null + 1\<close> is 1.\<close>

fun plus_one :: "jsnumber \<Rightarrow> jsnumber" where
  "plus_one (Num n) = Num (to_double (n + 1))"
| "plus_one NegInfinity = NegInfinity"
| "plus_one JNull = Num 1"

subsection \<open>The local cache: \<^verbatim>\<open>localStorage.get\<close>, \<^verbatim>\<open>localStorage.set\<close>\<close>

text \<open>\<^verbatim>\<open>item ? JSON.parse(item) : defaultValue\<close>, with the default \<^verbatim>\<open>[]\<close> also when parsing throws.\<close>

definition localStorage_get :: "storage \<Rightarrow> PromptGroup list" where
  "localStorage_get st = (case st of None \<Rightarrow> [] | Some groups \<Rightarrow> groups)"

text \<open>The \<^verbatim>\<open>groups.map\<close> of \<^verbatim>\<open>localStorage.set\<close>: a \<^verbatim>\<open>Set\<close> becomes \<^verbatim>\<open>Array.from\<close> of it.\<close>

definition serializable :: "PromptGroup \<Rightarrow> PromptGroup" where
  "serializable grp =
     (case syncedVersionIds grp of
        IdSet s \<Rightarrow> grp\<lparr>syncedVersionIds := IdArray (Array_from s)\<rparr>
      | _ \<Rightarrow> grp)"

text \<open>
  What \<^verbatim>\<open>JSON.parse\<close> reads back from \<^verbatim>\<open>JSON.stringify\<close>: a field that is \<^verbatim>\<open>undefined\<close>
  is left out and is \<^verbatim>\<open>undefined\<close> again, \<^verbatim>\<open>-Infinity\<close> is written as \<^verbatim>\<open>null\<close>.
\<close>

definition JSON_version :: "PromptVersion \<Rightarrow> PromptVersion" where
  "JSON_version v = v\<lparr>version := (case version v of NegInfinity \<Rightarrow> JNull | n \<Rightarrow> n)\<rparr>"

definition JSON_group :: "PromptGroup \<Rightarrow> PromptGroup" where
  "JSON_group grp = grp\<lparr>versions := map JSON_version (versions grp)\<rparr>"

definition localStorage_set :: "bool \<Rightarrow> PromptGroup list \<Rightarrow> storage \<Rightarrow> bool \<times> storage" where
  "localStorage_set ok groups st =
     (if ok then (True, Some (map (\<lambda>grp. JSON_group (serializable grp)) groups))
      else (False, st))"

subsection \<open>\<^verbatim>\<open>getAllGroups\<close>, \<^verbatim>\<open>getGroupById\<close>, \<^verbatim>\<open>getVersionById\<close>\<close>

definition restore_ids :: "PromptGroup \<Rightarrow> PromptGroup" where
  "restore_ids grp =
     (case syncedVersionIds grp of
        IdArray a \<Rightarrow> grp\<lparr>syncedVersionIds := IdSet (new_Set a)\<rparr>
      | NoIds \<Rightarrow> grp\<lparr>syncedVersionIds := IdSet (new_Set [])\<rparr>
      | IdSet s \<Rightarrow> grp)"

definition getAllGroups :: "storage \<Rightarrow> PromptGroup list" where
  "getAllGroups st = map restore_ids (localStorage_get st)"

definition getGroupById :: "storage \<Rightarrow> string \<Rightarrow> PromptGroup option" where
  "getGroupById st groupId = find (\<lambda>g. id_g g = groupId) (getAllGroups st)"

fun getVersionById_loop :: "string \<Rightarrow> PromptGroup list \<Rightarrow> PromptVersion option" where
  "getVersionById_loop versionId [] = None"
| "getVersionById_loop versionId (grp # rest) =
     (case find (\<lambda>v. id_v v = versionId) (versions grp) of
        Some v \<Rightarrow> Some v
      | None \<Rightarrow> getVersionById_loop versionId rest)"

definition getVersionById :: "storage \<Rightarrow> string \<Rightarrow> PromptVersion option" where
  "getVersionById st versionId = getVersionById_loop versionId (getAllGroups st)"

subsection \<open>\<^verbatim>\<open>addVersion\<close>\<close>

text \<open>
  The text of a number in the template literal of the default name \<^verbatim>\<open>v${n}.0\<close>. The
  digits are those of the decimal number with the fewest significant digits that
  converts to the double, the nearest to it when there are several (of the two
  candidates \<open>lo\<close> and \<open>hi\<close> around it at each power of ten, the even one on a tie); below
  \<open>10^21\<close> they are written out, from there on in exponent form. For a magnitude below
  \<open>2^53\<close> that is the decimal numeral of the integer.
\<close>

function digits :: "int \<Rightarrow> string" where
  "digits n =
     (if n < 10 then [''0123456789'' ! nat n]
      else digits (n div 10) @ [''0123456789'' ! nat (n mod 10)])"
  by pat_completeness auto
termination
  by (relation "measure nat") auto

declare digits.simps [simp del]

fun shortest :: "int \<Rightarrow> nat \<Rightarrow> int" where
  "shortest x 0 = x"
| "shortest x (Suc j) =
     (let p = 10 ^ Suc j;
          lo = (x div p) * p;
          hi = lo + p
      in if round_magnitude lo = x \<and> round_magnitude hi = x
         then (if x - lo < hi - x then lo
               else if hi - x < x - lo then hi
               else if even (x div p) then lo else hi)
         else if round_magnitude lo = x then lo
         else if round_magnitude hi = x then hi
         else shortest x j)"

declare shortest.simps [simp del]

definition Number_toString :: "int \<Rightarrow> string" where
  "Number_toString x =
     (let v = shortest \<bar>x\<bar> (length (digits \<bar>x\<bar>));
          sign = (if x < 0 then ''-'' else [])
      in if v < 10 ^ 21 then sign @ digits v
         else (let s = rev (dropWhile (\<lambda>c. c = CHR ''0'') (rev (digits v)))
               in sign @ (if length s = 1 then s else hd s # CHR ''.'' # tl s)
                    @ ''e+'' @ digits (int (length (digits v)) - 1)))"

fun String_of :: "jsnumber \<Rightarrow> string" where
  "String_of (Num n) = Number_toString n"
| "String_of NegInfinity = ''-Infinity''"
| "String_of JNull = ''null''"

text \<open>\<^verbatim>\<open>status?: 'draft' | 'current'\<close>: the options of \<^verbatim>\<open>addVersion\<close> cannot ask for production.\<close>

datatype new_status = New_draft | New_current

fun status_of :: "new_status \<Rightarrow> version_status" where
  "status_of New_draft = Draft"
| "status_of New_current = Current"

record add_options =
  opt_name :: "string option"
  opt_description :: "string option"
  opt_status :: "new_status option"
  opt_createdFrom :: "created_type option"
  opt_parentVersionId :: "string option"

definition addVersion ::
  "env \<Rightarrow> string \<Rightarrow> string \<Rightarrow> add_options \<Rightarrow> storage \<Rightarrow> PromptVersion option \<times> storage" where
  "addVersion e groupId content' options st =
     (let groups = getAllGroups st in
      case findIndex (\<lambda>g. id_g g = groupId) groups of
        None \<Rightarrow> (None, st)
      | Some groupIndex \<Rightarrow>
          (let grp = groups ! groupIndex;
               nextVersionNumber = plus_one (Math_max (map version (versions grp)));
               versionId = generateId e 0;
               newVersion =
                 \<lparr>id_v = versionId,
                  promptId = groupId,
                  version = nextVersionNumber,
                  name_v = (case opt_name options of
                              None \<Rightarrow> ''v'' @ String_of nextVersionNumber @ ''.0''
                            | Some n \<Rightarrow> if n = [] then ''v'' @ String_of nextVersionNumber @ ''.0'' else n),
                  content = content',
                  description_v = opt_description options,
                  status = (case opt_status options of None \<Rightarrow> Draft | Some s \<Rightarrow> status_of s),
                  parentVersionId = opt_parentVersionId options,
                  timestamp_v = now e,
                  createdFrom = (case opt_createdFrom options of None \<Rightarrow> Some Manual | Some c \<Rightarrow> Some c)\<rparr>;
               grp1 = (if status newVersion = Current
                       then grp\<lparr>versions := map (\<lambda>v. if status v = Current then v\<lparr>status := Draft\<rparr> else v)
                                                (versions grp),
                                currentVersionId := versionId\<rparr>
                       else grp);
               grp2 = grp1\<lparr>versions := versions grp1 @ [newVersion], lastModified := now e\<rparr>
           in (Some newVersion, snd (localStorage_set (setItem_ok e) (groups[groupIndex := grp2]) st))))"

subsection \<open>\<^verbatim>\<open>setVersionStatus\<close>\<close>

definition clear_status :: "version_status \<Rightarrow> nat \<Rightarrow> PromptVersion list \<Rightarrow> PromptVersion list" where
  "clear_status s versionIndex vs =
     map (\<lambda>(idx, v). if idx \<noteq> versionIndex \<and> status v = s then v\<lparr>status := Draft\<rparr> else v)
       (enumerate 0 vs)"

definition setVersionStatus_group ::
  "int \<Rightarrow> string \<Rightarrow> version_status \<Rightarrow> nat \<Rightarrow> PromptGroup \<Rightarrow> PromptGroup" where
  "setVersionStatus_group t versionId s versionIndex grp =
     (let grp1 = (if s = Current \<or> s = Production
                  then (let g = grp\<lparr>versions := clear_status s versionIndex (versions grp)\<rparr>
                        in if s = Current then g\<lparr>currentVersionId := versionId\<rparr>
                           else if s = Production then g\<lparr>productionVersionId := Some versionId\<rparr>
                           else g)
                  else grp);
          vs = versions grp1
      in grp1\<lparr>versions := vs[versionIndex := (vs ! versionIndex)\<lparr>status := s\<rparr>],
               lastModified := t\<rparr>)"

text \<open>The \<^verbatim>\<open>for\<close> loop with its \<^verbatim>\<open>break\<close>: \<open>None\<close> when \<^verbatim>\<open>updated\<close> stays \<^verbatim>\<open>false\<close>.\<close>

fun setVersionStatus_loop ::
  "int \<Rightarrow> string \<Rightarrow> version_status \<Rightarrow> PromptGroup list \<Rightarrow> PromptGroup list option" where
  "setVersionStatus_loop t versionId s [] = None"
| "setVersionStatus_loop t versionId s (grp # rest) =
     (case findIndex (\<lambda>v. id_v v = versionId) (versions grp) of
        Some versionIndex \<Rightarrow> Some (setVersionStatus_group t versionId s versionIndex grp # rest)
      | None \<Rightarrow> map_option ((#) grp) (setVersionStatus_loop t versionId s rest))"

definition setVersionStatus :: "env \<Rightarrow> string \<Rightarrow> version_status \<Rightarrow> storage \<Rightarrow> bool \<times> storage" where
  "setVersionStatus e versionId s st =
     (case setVersionStatus_loop (now e) versionId s (getAllGroups st) of
        None \<Rightarrow> (False, st)
      | Some groups \<Rightarrow> (True, snd (localStorage_set (setItem_ok e) groups st)))"

subsection \<open>\<^verbatim>\<open>deleteVersion\<close>\<close>

text \<open>
  \<^verbatim>\<open>remainingVersions.sort((a, b) => b.version - a.version)\<close>: a stable sort, descending.
  The elements carry their index in \<^verbatim>\<open>group.versions\<close>, since the sorted array holds
  the same objects and \<^verbatim>\<open>latestVersion.status = 'current'\<close> writes through.
\<close>

fun insert_desc :: "nat \<times> PromptVersion \<Rightarrow> (nat \<times> PromptVersion) list \<Rightarrow> (nat \<times> PromptVersion) list" where
  "insert_desc a [] = [a]"
| "insert_desc a (b # bs) =
     (if js_less (version (snd b)) (version (snd a)) then a # b # bs else b # insert_desc a bs)"

definition sort_desc :: "(nat \<times> PromptVersion) list \<Rightarrow> (nat \<times> PromptVersion) list" where
  "sort_desc xs = foldl (\<lambda>sorted a. insert_desc a sorted) [] xs"

definition deleteVersion_group :: "int \<Rightarrow> nat \<Rightarrow> PromptGroup \<Rightarrow> PromptGroup" where
  "deleteVersion_group t versionIndex grp =
     (let versionToDelete = versions grp ! versionIndex;
          grp1 = (if status versionToDelete = Current
                  then (let remainingVersions =
                              filter (\<lambda>(idx, v). idx \<noteq> versionIndex) (enumerate 0 (versions grp))
                        in case sort_desc remainingVersions of
                             [] \<Rightarrow> grp
                           | (latest, latestVersion) # _ \<Rightarrow>
                               grp\<lparr>versions := (versions grp)[latest := latestVersion\<lparr>status := Current\<rparr>],
                                   currentVersionId := id_v latestVersion\<rparr>)
                  else grp);
          grp2 = (if status versionToDelete = Production
                  then grp1\<lparr>productionVersionId := None\<rparr>
                  else grp1)
      in grp2\<lparr>versions := take versionIndex (versions grp2) @ drop (Suc versionIndex) (versions grp2),
               lastModified := t\<rparr>)"

text \<open>\<open>None\<close> for \<^verbatim>\<open>return false\<close>: the early return at an only version, or no match.\<close>

fun deleteVersion_loop :: "int \<Rightarrow> string \<Rightarrow> PromptGroup list \<Rightarrow> PromptGroup list option" where
  "deleteVersion_loop t versionId [] = None"
| "deleteVersion_loop t versionId (grp # rest) =
     (case findIndex (\<lambda>v. id_v v = versionId) (versions grp) of
        Some versionIndex \<Rightarrow>
          if length (versions grp) = 1 then None
          else Some (deleteVersion_group t versionIndex grp # rest)
      | None \<Rightarrow> map_option ((#) grp) (deleteVersion_loop t versionId rest))"

definition deleteVersion :: "env \<Rightarrow> string \<Rightarrow> storage \<Rightarrow> bool \<times> storage" where
  "deleteVersion e versionId st =
     (case deleteVersion_loop (now e) versionId (getAllGroups st) of
        None \<Rightarrow> (False, st)
      | Some groups \<Rightarrow> (True, snd (localStorage_set (setItem_ok e) groups st)))"

subsection \<open>\<^verbatim>\<open>updateGroup\<close>, \<^verbatim>\<open>updateVersion\<close>\<close>

text \<open>A \<^verbatim>\<open>Partial<Pick<...>>\<close>: \<open>None\<close> for a key the patch does not have.\<close>

record group_updates =
  upd_name_g :: "string option"
  upd_description_g :: "string option"
  upd_tags :: "string list option"

record version_updates =
  upd_name_v :: "string option"
  upd_description_v :: "string option"

definition spread_group :: "PromptGroup \<Rightarrow> group_updates \<Rightarrow> PromptGroup" where
  "spread_group grp updates =
     grp\<lparr>name_g := (case upd_name_g updates of None \<Rightarrow> name_g grp | Some n \<Rightarrow> n),
         description_g := (case upd_description_g updates of None \<Rightarrow> description_g grp | Some d \<Rightarrow> Some d),
         tags := (case upd_tags updates of None \<Rightarrow> tags grp | Some ts \<Rightarrow> Some ts)\<rparr>"

definition spread_version :: "PromptVersion \<Rightarrow> version_updates \<Rightarrow> PromptVersion" where
  "spread_version v updates =
     v\<lparr>name_v := (case upd_name_v updates of None \<Rightarrow> name_v v | Some n \<Rightarrow> n),
       description_v := (case upd_description_v updates of None \<Rightarrow> description_v v | Some d \<Rightarrow> Some d)\<rparr>"

definition updateGroup :: "env \<Rightarrow> string \<Rightarrow> group_updates \<Rightarrow> storage \<Rightarrow> bool \<times> storage" where
  "updateGroup e groupId updates st =
     (let groups = getAllGroups st in
      case findIndex (\<lambda>g. id_g g = groupId) groups of
        None \<Rightarrow> (False, st)
      | Some groupIndex \<Rightarrow>
          (True, snd (localStorage_set (setItem_ok e)
                   (groups[groupIndex := (spread_group (groups ! groupIndex) updates)\<lparr>lastModified := now e\<rparr>])
                   st)))"

definition updateVersion_group :: "int \<Rightarrow> version_updates \<Rightarrow> nat \<Rightarrow> PromptGroup \<Rightarrow> PromptGroup" where
  "updateVersion_group t updates versionIndex grp =
     grp\<lparr>versions := (versions grp)[versionIndex := spread_version (versions grp ! versionIndex) updates],
         lastModified := t\<rparr>"

fun updateVersion_loop ::
  "int \<Rightarrow> string \<Rightarrow> version_updates \<Rightarrow> PromptGroup list \<Rightarrow> PromptGroup list option" where
  "updateVersion_loop t versionId updates [] = None"
| "updateVersion_loop t versionId updates (grp # rest) =
     (case findIndex (\<lambda>v. id_v v = versionId) (versions grp) of
        Some versionIndex \<Rightarrow> Some (updateVersion_group t updates versionIndex grp # rest)
      | None \<Rightarrow> map_option ((#) grp) (updateVersion_loop t versionId updates rest))"

definition updateVersion :: "env \<Rightarrow> string \<Rightarrow> version_updates \<Rightarrow> storage \<Rightarrow> bool \<times> storage" where
  "updateVersion e versionId updates st =
     (case updateVersion_loop (now e) versionId updates (getAllGroups st) of
        None \<Rightarrow> (False, st)
      | Some groups \<Rightarrow> (True, snd (localStorage_set (setItem_ok e) groups st)))"

subsection \<open>\<^verbatim>\<open>createPromptGroup\<close> and the remote \<^verbatim>\<open>createGroup\<close>\<close>

record SupabasePromptGroup =
  id_sg :: string
  name_sg :: string
  description_sg :: "string option"
  created_at_sg :: int
  updated_at_sg :: int

record SupabasePromptVersion =
  id_sv :: string
  group_id :: string
  name_sv :: string
  content_sv :: string
  status_sv :: version_status
  created_at_sv :: int

definition convertGroupToLocal :: "SupabasePromptGroup \<Rightarrow> SupabasePromptVersion list \<Rightarrow> PromptGroup" where
  "convertGroupToLocal supabaseGroup vs =
     (let convertedVersions =
            map (\<lambda>(index, v).
                   \<lparr>id_v = id_sv v, promptId = group_id v, version = Num (int index + 1),
                    name_v = name_sv v, content = content_sv v, description_v = None,
                    status = status_sv v, parentVersionId = None,
                    timestamp_v = created_at_sv v, createdFrom = None\<rparr>)
              (enumerate 0 vs);
          currentVersion =
            (case find (\<lambda>v. status v = Current) convertedVersions of
               Some v \<Rightarrow> Some v
             | None \<Rightarrow>
                 (case find (\<lambda>v. status v = Production) convertedVersions of
                    Some v \<Rightarrow> Some v
                  | None \<Rightarrow> (case convertedVersions of [] \<Rightarrow> None | v # _ \<Rightarrow> Some v)));
          productionVersion = find (\<lambda>v. status v = Production) convertedVersions
      in \<lparr>id_g = id_sg supabaseGroup,
          name_g = name_sg supabaseGroup,
          description_g = Some (case description_sg supabaseGroup of None \<Rightarrow> [] | Some d \<Rightarrow> d),
          currentVersionId = (case currentVersion of None \<Rightarrow> [] | Some v \<Rightarrow> id_v v),
          productionVersionId = map_option id_v productionVersion,
          versions = convertedVersions,
          tags = None,
          timestamp_g = created_at_sg supabaseGroup,
          lastModified = updated_at_sg supabaseGroup,
          supabase_id = Some (id_sg supabaseGroup),
          syncedVersionIds = NoIds\<rparr>)"

text \<open>
  \<^verbatim>\<open>supabasePromptService.createGroup\<close>: \<open>None\<close> is the \<^verbatim>\<open>null\<close> it returns from its
  \<^verbatim>\<open>catch\<close>, after either insert answered with an error.
\<close>

definition createGroup :: "env \<Rightarrow> string \<Rightarrow> string \<Rightarrow> string option \<Rightarrow> bool \<Rightarrow> PromptGroup option" where
  "createGroup e name' initialContent description' skipInitialVersion =
     (case group_insert e of
        None \<Rightarrow> None
      | Some (gid, created, updated) \<Rightarrow>
          (let supabaseGroup =
                 \<lparr>id_sg = gid, name_sg = name', description_sg = Some initialContent,
                  created_at_sg = created, updated_at_sg = updated\<rparr>
           in if \<not> skipInitialVersion
              then (case version_insert e of
                      None \<Rightarrow> None
                    | Some (vid, vcreated) \<Rightarrow>
                        Some (convertGroupToLocal supabaseGroup
                                [\<lparr>id_sv = vid, group_id = gid, name_sv = name' @ '' v1'',
                                  content_sv = initialContent, status_sv = Current,
                                  created_at_sv = vcreated\<rparr>]))
              else Some (convertGroupToLocal supabaseGroup [])))"

definition createPromptGroup ::
  "env \<Rightarrow> string \<Rightarrow> string \<Rightarrow> string option \<Rightarrow> storage \<Rightarrow> PromptGroup \<times> storage" where
  "createPromptGroup e name' content' description' st =
     (case (if supabaseConfigured e then createGroup e name' content' description' False else None) of
        Some grp \<Rightarrow>
          (grp, snd (localStorage_set (setItem_ok e) (grp # localStorage_get st) st))
      | None \<Rightarrow>
          (let groupId = generateId e 0;
               versionId = generateId e 1;
               firstVersion =
                 \<lparr>id_v = versionId, promptId = groupId, version = Num 1, name_v = ''v1.0'',
                  content = content',
                  description_v = (case description' of
                                     None \<Rightarrow> Some ''Initial version''
                                   | Some d \<Rightarrow> if d = [] then Some ''Initial version'' else Some d),
                  status = Current, parentVersionId = None, timestamp_v = now e,
                  createdFrom = Some Manual\<rparr>;
               grp =
                 \<lparr>id_g = groupId, name_g = name', description_g = description',
                  currentVersionId = versionId, productionVersionId = None,
                  versions = [firstVersion], tags = None, timestamp_g = now e,
                  lastModified = now e, supabase_id = None, syncedVersionIds = NoIds\<rparr>
           in (grp, snd (localStorage_set (setItem_ok e) (getAllGroups st @ [grp]) st))))"


subsection \<open>The push pass: \<^verbatim>\<open>syncToSupabase\<close>\<close>

text \<open>
  The pass issues remote calls and registers callbacks; the model returns the calls of
  one pass and the store once every callback of the pass has run, the callbacks taken
  in the order of their calls. \<open>remote\<close> gives the answers: \<open>createGroup_answer\<close> the
  \<^verbatim>\<open>supabaseGroup.id\<close> for the local group of that id, \<open>addVersion_answer\<close> the
  \<^verbatim>\<open>result.id\<close> for the local version of that id, \<open>None\<close> for \<^verbatim>\<open>null\<close> or a rejection.
  The first argument of \<open>AddVersion\<close> is the id of the local version the call is made
  for (the call itself carries only the remote group id, the name and the content).
\<close>

datatype remote_call =
    CreateGroup string string "string option"
  | AddVersion string string string string
  | SetVersionStatus string version_status

record remote =
  createGroup_answer :: "string \<Rightarrow> string option"
  addVersion_answer :: "string \<Rightarrow> string option"

definition truthy :: "string option \<Rightarrow> bool" where
  "truthy x = (case x of None \<Rightarrow> False | Some s \<Rightarrow> s \<noteq> [])"

definition status_call :: "string \<Rightarrow> PromptVersion \<Rightarrow> remote_call list" where
  "status_call resultId v =
     (if status v = Current \<or> status v = Production then [SetVersionStatus resultId (status v)] else [])"

definition push_version :: "remote \<Rightarrow> string \<Rightarrow> PromptVersion \<Rightarrow> remote_call list" where
  "push_version r rid v =
     AddVersion (id_v v) rid (name_v v) (content v) #
     (case addVersion_answer r (id_v v) of None \<Rightarrow> [] | Some resultId \<Rightarrow> status_call resultId v)"

definition already_synced :: "synced_ids \<Rightarrow> string \<Rightarrow> bool" where
  "already_synced ids x =
     (case ids of NoIds \<Rightarrow> False | IdSet s \<Rightarrow> Set_has s x | IdArray a \<Rightarrow> x \<in> set a)"

definition mark_synced :: "synced_ids \<Rightarrow> string \<Rightarrow> synced_ids" where
  "mark_synced ids x =
     IdSet (Set_add (case ids of NoIds \<Rightarrow> new_Set [] | IdArray a \<Rightarrow> new_Set a | IdSet s \<Rightarrow> s) x)"

text \<open>One group of the \<^verbatim>\<open>groups.forEach\<close>: its calls, the group after its callbacks, and
  whether a callback wrote the store.\<close>

definition syncToSupabase_group :: "remote \<Rightarrow> PromptGroup \<Rightarrow> remote_call list \<times> PromptGroup \<times> bool" where
  "syncToSupabase_group r grp =
     (if \<not> truthy (supabase_id grp) \<and> length (versions grp) > 0
      then (let firstVersion = hd (versions grp);
                call = CreateGroup (name_g grp) (content firstVersion) (description_g grp)
            in case createGroup_answer r (id_g grp) of
                 None \<Rightarrow> ([call], grp, False)
               | Some rid \<Rightarrow>
                   (call # (if length (versions grp) > 1
                            then concat (map (push_version r rid) (tl (versions grp)))
                            else []),
                    grp\<lparr>supabase_id := Some rid\<rparr>, True))
      else if truthy (supabase_id grp)
      then (let rid = the (supabase_id grp);
                grp1 = (if syncedVersionIds grp = NoIds
                        then grp\<lparr>syncedVersionIds := IdSet (new_Set [])\<rparr> else grp);
                pending = filter (\<lambda>v. \<not> already_synced (syncedVersionIds grp1) (id_v v)) (versions grp1);
                succeeded = filter (\<lambda>v. addVersion_answer r (id_v v) \<noteq> None) pending
            in (concat (map (push_version r rid) pending),
                grp1\<lparr>syncedVersionIds := foldl mark_synced (syncedVersionIds grp1) (map id_v succeeded)\<rparr>,
                succeeded \<noteq> []))
      else ([], grp, False))"

definition syncToSupabase :: "env \<Rightarrow> remote \<Rightarrow> PromptGroup list \<Rightarrow> storage \<Rightarrow> remote_call list \<times> storage" where
  "syncToSupabase e r groups st =
     (if supabaseConfigured e
      then (let results = map (syncToSupabase_group r) groups
            in (concat (map fst results),
                if list_ex (\<lambda>res. snd (snd res)) results
                then snd (localStorage_set (setItem_ok e) (map (\<lambda>res. fst (snd res)) results) st)
                else st))
      else ([], st))"

text \<open>The remote creations made for the local version \<open>x\<close> among the calls.\<close>

definition creates_for :: "string \<Rightarrow> remote_call list \<Rightarrow> nat" where
  "creates_for x calls =
     length (filter (\<lambda>c. case c of AddVersion y _ _ _ \<Rightarrow> y = x | _ \<Rightarrow> False) calls)"

subsection \<open>Notions used in the statements\<close>

text \<open>
  \<open>members\<close> is the membership of a synced-version-id field, whatever its representation;
  \<open>has_version\<close> and \<open>all_version_ids\<close> say where a version id occurs; \<open>reload\<close> is one
  group written by \<^verbatim>\<open>localStorage.set\<close> and read back by \<^verbatim>\<open>getAllGroups\<close>; \<open>scan_loop\<close>
  is the common shape of the three loops that look for the group of a version.
\<close>

fun members :: "synced_ids \<Rightarrow> string set" where
  "members NoIds = {}"
| "members (IdSet s) = set s"
| "members (IdArray a) = set a"

fun is_Set :: "synced_ids \<Rightarrow> bool" where
  "is_Set (IdSet s) = True"
| "is_Set _ = False"

definition has_version :: "string \<Rightarrow> PromptGroup \<Rightarrow> bool" where
  "has_version versionId g = (versionId \<in> set (map id_v (versions g)))"

definition all_version_ids :: "PromptGroup list \<Rightarrow> string list" where
  "all_version_ids groups = concat (map (\<lambda>g. map id_v (versions g)) groups)"

fun scan_loop :: "(nat \<Rightarrow> PromptGroup \<Rightarrow> PromptGroup option) \<Rightarrow> string \<Rightarrow> PromptGroup list \<Rightarrow> PromptGroup list option" where
  "scan_loop body versionId [] = None"
| "scan_loop body versionId (grp # rest) =
     (case findIndex (\<lambda>v. id_v v = versionId) (versions grp) of
        Some versionIndex \<Rightarrow> map_option (\<lambda>g. g # rest) (body versionIndex grp)
      | None \<Rightarrow> map_option ((#) grp) (scan_loop body versionId rest))"

definition reload :: "PromptGroup \<Rightarrow> PromptGroup" where
  "reload g = restore_ids (JSON_group (serializable g))"

text \<open>
  \<open>json_storage\<close> holds of an entry that \<^verbatim>\<open>JSON.parse\<close> can return: no \<^verbatim>\<open>Set\<close> and no
  \<^verbatim>\<open>-Infinity\<close> in it. Every entry written by \<open>localStorage_set\<close> is such, and so is the
  absent one. \<open>loaded\<close> is what \<open>getAllGroups\<close> returns from it. \<open>frame versionId gs gs'\<close>
  says that \<open>gs'\<close> differs from \<open>gs\<close> at most in the first group holding a version of
  that id. \<open>remaining k vs\<close> is \<open>vs\<close> without its element at \<open>k\<close>
  (\<^verbatim>\<open>splice(k, 1)\<close>, or the \<^verbatim>\<open>filter\<close> on the index).
\<close>

definition json_group :: "PromptGroup \<Rightarrow> bool" where
  "json_group g = (\<not> is_Set (syncedVersionIds g) \<and> list_all (\<lambda>v. version v \<noteq> NegInfinity) (versions g))"

definition json_storage :: "storage \<Rightarrow> bool" where
  "json_storage st = list_all json_group (localStorage_get st)"

definition loaded :: "PromptGroup \<Rightarrow> bool" where
  "loaded g = ((case syncedVersionIds g of IdSet s \<Rightarrow> distinct s | _ \<Rightarrow> False)
               \<and> list_all (\<lambda>v. version v \<noteq> NegInfinity) (versions g))"

definition frame :: "string \<Rightarrow> PromptGroup list \<Rightarrow> PromptGroup list \<Rightarrow> bool" where
  "frame versionId gs gs' =
     (case findIndex (has_version versionId) gs of
        None \<Rightarrow> gs' = gs
      | Some i \<Rightarrow> length gs' = length gs \<and> take i gs' = take i gs \<and> drop (Suc i) gs' = drop (Suc i) gs)"

definition ge_version :: "nat \<times> PromptVersion \<Rightarrow> nat \<times> PromptVersion \<Rightarrow> bool" where
  "ge_version a b = (\<not> js_less (version (snd a)) (version (snd b)))"

definition remaining :: "nat \<Rightarrow> 'a list \<Rightarrow> 'a list" where
  "remaining k vs = take k vs @ drop (Suc k) vs"

text \<open>
  \<open>count_status s g\<close> counts the versions of \<open>g\<close> with status \<open>s\<close>; \<open>demoted s\<close> turns every
  \<open>s\<close> of a list of statuses into draft; \<open>setVersionStatus_calls\<close> runs a sequence of
  \<^verbatim>\<open>setVersionStatus\<close> calls, each with its own environment. \<open>newVersion_of\<close> and
  \<open>with_newVersion\<close> name the \<^verbatim>\<open>newVersion\<close> that \<^verbatim>\<open>addVersion\<close> builds and the group it
  stores.
\<close>

definition count_status :: "version_status \<Rightarrow> PromptGroup \<Rightarrow> nat" where
  "count_status s g = length (filter (\<lambda>v. status v = s) (versions g))"

definition demoted :: "version_status \<Rightarrow> version_status list \<Rightarrow> version_status list" where
  "demoted s sts = map (\<lambda>x. if x = s then Draft else x) sts"

fun setVersionStatus_calls :: "(env \<times> string \<times> version_status) list \<Rightarrow> storage \<Rightarrow> storage" where
  "setVersionStatus_calls [] st = st"
| "setVersionStatus_calls ((e, versionId, s) # calls) st =
     setVersionStatus_calls calls (snd (setVersionStatus e versionId s st))"

definition newVersion_of :: "env \<Rightarrow> string \<Rightarrow> string \<Rightarrow> add_options \<Rightarrow> PromptGroup \<Rightarrow> PromptVersion" where
  "newVersion_of e groupId content' options grp =
     \<lparr>id_v = generateId e 0,
      promptId = groupId,
      version = plus_one (Math_max (map version (versions grp))),
      name_v = (case opt_name options of
                  None \<Rightarrow> ''v'' @ String_of (plus_one (Math_max (map version (versions grp)))) @ ''.0''
                | Some n \<Rightarrow> if n = [] then ''v'' @ String_of (plus_one (Math_max (map version (versions grp)))) @ ''.0'' else n),
      content = content',
      description_v = opt_description options,
      status = (case opt_status options of None \<Rightarrow> Draft | Some s \<Rightarrow> status_of s),
      parentVersionId = opt_parentVersionId options,
      timestamp_v = now e,
      createdFrom = (case opt_createdFrom options of None \<Rightarrow> Some Manual | Some c \<Rightarrow> Some c)\<rparr>"

definition with_newVersion :: "int \<Rightarrow> PromptVersion \<Rightarrow> PromptGroup \<Rightarrow> PromptGroup" where
  "with_newVersion t newVersion grp =
     (let grp1 = (if status newVersion = Current
                  then grp\<lparr>versions := map (\<lambda>v. if status v = Current then v\<lparr>status := Draft\<rparr> else v)
                                           (versions grp),
                           currentVersionId := id_v newVersion\<rparr>
                  else grp)
      in grp1\<lparr>versions := versions grp1 @ [newVersion], lastModified := t\<rparr>)"

definition count_in :: "version_status \<Rightarrow> version_status list \<Rightarrow> nat" where
  "count_in s sts = length (filter (\<lambda>x. x = s) sts)"

text \<open>
  \<open>initial_version g\<close>: the group has exactly one version, which is current, has version
  number 1 and is the one \<^verbatim>\<open>currentVersionId\<close> names. \<open>push_pass\<close> is a
  reconciliation pass as a mutation triggers it: \<^verbatim>\<open>syncToSupabase\<close> on the groups just
  loaded from the store, run until its callbacks are done.
\<close>

definition initial_version :: "PromptGroup \<Rightarrow> bool" where
  "initial_version g =
     (case versions g of
        [v] \<Rightarrow> status v = Current \<and> version v = Num 1 \<and> currentVersionId g = id_v v
      | _ \<Rightarrow> False)"

definition push_pass :: "env \<Rightarrow> remote \<Rightarrow> storage \<Rightarrow> remote_call list \<times> storage" where
  "push_pass e r st = syncToSupabase e r (getAllGroups st) st"

subsection \<open>Runs of \<^verbatim>\<open>addVersion\<close> calls and of the callbacks between them\<close>

text \<open>
  With Supabase configured a call of \<^verbatim>\<open>addVersion\<close> leaves two promises behind. The
  \<^verbatim>\<open>syncFromSupabase\<close> that its \<^verbatim>\<open>getAllGroups\<close> starts writes, once it is answered, the
  groups of the remote store over the cache. The \<^verbatim>\<open>this.syncToSupabase(groups)\<close> at its
  end keeps the array \<^verbatim>\<open>groups\<close> of the call, and its callbacks write that array over the
  cache, whatever the cache holds by then. \<open>addVersion_pushed\<close> is that array (the
  one the call has just written, or failed to write), with the environment the push
  was started in; \<open>createPromptGroup_pushed\<close> is the same for the local path of
  \<^verbatim>\<open>createPromptGroup\<close>, whose remote path pushes nothing.
\<close>

definition addVersion_pushed ::
  "env \<Rightarrow> string \<Rightarrow> string \<Rightarrow> add_options \<Rightarrow> storage \<Rightarrow> (env \<times> PromptGroup list) option" where
  "addVersion_pushed e groupId content' options st =
     (case findIndex (\<lambda>g. id_g g = groupId) (getAllGroups st) of
        None \<Rightarrow> None
      | Some groupIndex \<Rightarrow>
          Some (e, (getAllGroups st)
                     [groupIndex := with_newVersion (now e)
                        (newVersion_of e groupId content' options (getAllGroups st ! groupIndex))
                        (getAllGroups st ! groupIndex)]))"

definition createPromptGroup_pushed ::
  "env \<Rightarrow> string \<Rightarrow> string \<Rightarrow> string option \<Rightarrow> storage \<Rightarrow> (env \<times> PromptGroup list) option" where
  "createPromptGroup_pushed e name' content' description' st =
     (case (if supabaseConfigured e then createGroup e name' content' description' False else None) of
        Some grp \<Rightarrow> None
      | None \<Rightarrow> Some (e, getAllGroups st @ [fst (createPromptGroup e name' content' description' st)]))"

text \<open>
  A run is a sequence of events on one cache: a call of \<^verbatim>\<open>addVersion\<close> on the group, with
  its environment, content and options; the callbacks of the \<open>k\<close>-th push of the run
  (\<open>PushDone k r ok\<close>: the remote answers \<open>r\<close>, and \<open>ok\<close> tells whether their write to the
  cache succeeds), which run once, together as in \<open>syncToSupabase\<close>; the callback of a
  pull that is pending (\<open>PullDone groups ok\<close>: the remote store holds \<open>groups\<close>). A promise
  that is rejected or never answered is an event that does not occur. The state of a
  run is the cache, the pushes started so far (\<open>None\<close> once its callbacks ran, or for
  a call that started none), the number of pulls pending, and what the calls returned.
\<close>

datatype event =
    Call env string add_options
  | PushDone nat remote bool
  | PullDone "PromptGroup list" bool

record run =
  cache :: storage
  pushes :: "(env \<times> PromptGroup list) option list"
  pulls :: nat
  returned :: "PromptVersion option list"

fun step :: "string \<Rightarrow> run \<Rightarrow> event \<Rightarrow> run" where
  "step groupId s (Call e content' options) =
     s\<lparr>cache := snd (addVersion e groupId content' options (cache s)),
       pushes := pushes s @ [addVersion_pushed e groupId content' options (cache s)],
       pulls := pulls s + (if supabaseConfigured e then 1 else 0),
       returned := returned s @ [fst (addVersion e groupId content' options (cache s))]\<rparr>"
| "step groupId s (PushDone k r ok) =
     (if k < length (pushes s)
      then (case pushes s ! k of
              None \<Rightarrow> s
            | Some (e, groups) \<Rightarrow>
                s\<lparr>cache := snd (syncToSupabase (e\<lparr>setItem_ok := ok\<rparr>) r groups (cache s)),
                  pushes := (pushes s)[k := None]\<rparr>)
      else s)"
| "step groupId s (PullDone groups ok) =
     (if pulls s > 0
      then s\<lparr>cache := snd (localStorage_set ok groups (cache s)), pulls := pulls s - 1\<rparr>
      else s)"

text \<open>
  A run starts with nothing pending (\<open>at_rest\<close>), or right after \<^verbatim>\<open>createPromptGroup\<close>
  returned: with Supabase configured that leaves a pull pending (the
  \<^verbatim>\<open>syncFromSupabase\<close> of the remote path, or of \<^verbatim>\<open>getAllGroups\<close> on the local path), and
  the local path leaves its push.
\<close>

definition at_rest :: "storage \<Rightarrow> run" where
  "at_rest st = \<lparr>cache = st, pushes = [], pulls = 0, returned = []\<rparr>"

definition createPromptGroup_run :: "env \<Rightarrow> string \<Rightarrow> string \<Rightarrow> string option \<Rightarrow> storage \<Rightarrow> run" where
  "createPromptGroup_run e name' content' description' st =
     \<lparr>cache = snd (createPromptGroup e name' content' description' st),
      pushes = [createPromptGroup_pushed e name' content' description' st],
      pulls = (if supabaseConfigured e then 1 else 0),
      returned = []\<rparr>"

definition addVersion_run :: "event list \<Rightarrow> string \<Rightarrow> run \<Rightarrow> run" where
  "addVersion_run events groupId s = foldl (step groupId) s events"

text \<open>
  What the statements say of the events of a run: \<open>write_ok\<close>, the write of a call
  succeeds; \<open>local_call\<close>, a call is made with Supabase not configured; \<open>calls_first\<close>, no
  call comes after a callback; \<open>calls_of\<close>, the number of calls. A run is \<open>quiet\<close> when no
  callback that is pending can write: no pull is pending, and every push was started
  with Supabase not configured.
\<close>

fun is_Call :: "event \<Rightarrow> bool" where
  "is_Call (Call e content' options) = True"
| "is_Call ev = False"

fun write_ok :: "event \<Rightarrow> bool" where
  "write_ok (Call e content' options) = setItem_ok e"
| "write_ok ev = True"

fun local_call :: "event \<Rightarrow> bool" where
  "local_call (Call e content' options) = (\<not> supabaseConfigured e)"
| "local_call ev = True"

fun calls_first :: "event list \<Rightarrow> bool" where
  "calls_first [] = True"
| "calls_first (ev # events) = (if is_Call ev then calls_first events else \<not> list_ex is_Call events)"

definition calls_of :: "event list \<Rightarrow> nat" where
  "calls_of events = length (filter is_Call events)"

definition quiet :: "run \<Rightarrow> bool" where
  "quiet s = (pulls s = 0 \<and> list_all (\<lambda>p. case p of None \<Rightarrow> True | Some (e, groups) \<Rightarrow> \<not> supabaseConfigured e) (pushes s))"

subsection \<open>Example data\<close>

text \<open>A store of two groups: \<open>g1\<close> with a draft \<open>v1\<close> and a current \<open>v2\<close>, \<open>g2\<close> with the
  only version \<open>w1\<close>.\<close>

definition version_ex :: "string \<Rightarrow> int \<Rightarrow> version_status \<Rightarrow> PromptVersion" where
  "version_ex i n s =
     \<lparr>id_v = i, promptId = ''g1'', version = Num n, name_v = ''v'', content = ''text'',
      description_v = None, status = s, parentVersionId = None, timestamp_v = 10,
      createdFrom = Some Manual\<rparr>"

definition group_ex :: "string \<Rightarrow> string \<Rightarrow> PromptVersion list \<Rightarrow> PromptGroup" where
  "group_ex i cur vs =
     \<lparr>id_g = i, name_g = ''G'', description_g = None, currentVersionId = cur,
      productionVersionId = None, versions = vs, tags = None, timestamp_g = 10,
      lastModified = 10, supabase_id = None, syncedVersionIds = IdArray []\<rparr>"

definition g1_ex :: PromptGroup where
  "g1_ex = group_ex ''g1'' ''v2'' [version_ex ''v1'' 1 Draft, version_ex ''v2'' 2 Current]"

definition g2_ex :: PromptGroup where
  "g2_ex = group_ex ''g2'' ''w1'' [version_ex ''w1'' 1 Current]"

definition store_ex :: storage where
  "store_ex = Some [g1_ex, g2_ex]"

definition env_ex :: env where
  "env_ex =
     \<lparr>now = 20, generateId = (\<lambda>k. if k = 0 then ''n0'' else ''n1''), setItem_ok = True,
      supabaseConfigured = False, group_insert = None, version_insert = None\<rparr>"

text \<open>A group whose first version is in production and whose second is current.\<close>

definition g3_ex :: PromptGroup where
  "g3_ex = (group_ex ''g3'' ''p2'' [version_ex ''p1'' 1 Production, version_ex ''p2'' 2 Current])
             \<lparr>productionVersionId := Some ''p1''\<rparr>"

definition store_prod :: storage where
  "store_prod = Some [g3_ex]"

definition opts_current :: add_options where
  "opts_current =
     \<lparr>opt_name = None, opt_description = None, opt_status = Some New_current,
      opt_createdFrom = None, opt_parentVersionId = None\<rparr>"

text \<open>
  Environments in which the remote store answers both inserts (\<open>env_remote\<close>), in which
  the write to the cache fails (\<open>env_full\<close>), and in which Supabase is configured
  (\<open>env_sync\<close>); a remote that accepts every call; a store whose only group was never
  pushed, and the same group once it has a remote id.
\<close>

definition env_remote :: env where
  "env_remote =
     \<lparr>now = 20, generateId = (\<lambda>k. if k = 0 then ''n0'' else ''n1''), setItem_ok = True,
      supabaseConfigured = True, group_insert = Some (''r1'', 30, 30),
      version_insert = Some (''rv1'', 31)\<rparr>"

definition env_full :: env where
  "env_full = env_ex\<lparr>setItem_ok := False\<rparr>"

definition opts_none :: add_options where
  "opts_none =
     \<lparr>opt_name = None, opt_description = None, opt_status = None,
      opt_createdFrom = None, opt_parentVersionId = None\<rparr>"

definition remote_ok :: remote where
  "remote_ok = \<lparr>createGroup_answer = (\<lambda>g. Some (''remote-'' @ g)),
                addVersion_answer = (\<lambda>v. Some (''remote-'' @ v))\<rparr>"

definition env_sync :: env where
  "env_sync = env_ex\<lparr>supabaseConfigured := True\<rparr>"

definition store_unsynced :: storage where
  "store_unsynced = Some [g1_ex]"

definition g1_remote :: PromptGroup where
  "g1_remote = g1_ex\<lparr>supabase_id := Some ''remote-g1''\<rparr>"

text \<open>
  An environment with the id that \<^verbatim>\<open>generateId()\<close> returns set; a store whose only group
  has \<open>2^53\<close> as its only version number; and four runs: calls made with Supabase not
  configured, with the callbacks of a push and of a pull between them (\<open>events_local\<close>);
  calls made with Supabase configured, all before the callbacks (\<open>events_sync\<close>); calls
  whose writes fail (\<open>events_full\<close>); and calls made with Supabase configured, the
  callbacks of the first call's push running before the third call
  (\<open>events_overwritten\<close>).
\<close>

definition env_id :: "string \<Rightarrow> env \<Rightarrow> env" where
  "env_id i e = e\<lparr>generateId := (\<lambda>k. i)\<rparr>"

definition store_big :: storage where
  "store_big = Some [group_ex ''big'' ''b1'' [version_ex ''b1'' (2 ^ 53) Current]]"

definition events_local :: "event list" where
  "events_local =
     [Call (env_id ''a1'' env_ex) ''a'' opts_none,
      PushDone 0 remote_ok True,
      Call (env_id ''a2'' env_ex) ''b'' opts_current,
      PullDone [] True,
      Call (env_id ''a3'' env_ex) ''c'' opts_none]"

definition events_sync :: "event list" where
  "events_sync =
     [Call (env_id ''a1'' env_sync) ''a'' opts_none,
      Call (env_id ''a2'' env_sync) ''b'' opts_none,
      PushDone 1 remote_ok True,
      PullDone [] True]"

definition events_full :: "event list" where
  "events_full =
     [Call (env_id ''a1'' env_full) ''a'' opts_none,
      Call (env_id ''a2'' env_full) ''b'' opts_none]"

definition events_overwritten :: "event list" where
  "events_overwritten =
     [Call (env_id ''a1'' env_sync) ''a'' opts_none,
      Call (env_id ''a2'' env_sync) ''b'' opts_none,
      PushDone 1 remote_ok True,
      Call (env_id ''a3'' env_sync) ''c'' opts_none]"

subsection \<open>Properties\<close>

lemma set_new_Set_aux: "set (foldl Set_add acc xs) = set acc \<union> set xs"
  by (induction xs arbitrary: acc) (auto simp: Set_add_def Set_has_def)

lemma set_new_Set: "set (new_Set xs) = set xs"
  by (simp add: new_Set_def set_new_Set_aux)

subsection \<open>Saving and loading\<close>

lemma members_restore_serializable:
  "members (syncedVersionIds (restore_ids (JSON_group (serializable g)))) = members (syncedVersionIds g)"
  by (cases "syncedVersionIds g")
     (simp_all add: restore_ids_def JSON_group_def serializable_def set_new_Set Array_from_def)

lemma is_Set_restore: "is_Set (syncedVersionIds (restore_ids g))"
  by (cases "syncedVersionIds g") (simp_all add: restore_ids_def)

lemma not_Set_stored: "\<not> is_Set (syncedVersionIds (JSON_group (serializable g)))"
  by (cases "syncedVersionIds g") (simp_all add: JSON_group_def serializable_def)

lemma getAllGroups_set_members:
  "map (\<lambda>g. members (syncedVersionIds g)) (getAllGroups (snd (localStorage_set True groups st)))
     = map (\<lambda>g. members (syncedVersionIds g)) groups"
  by (simp add: getAllGroups_def localStorage_set_def localStorage_get_def comp_def
        members_restore_serializable)

lemma stored_no_Set:
  "list_all (\<lambda>g. \<not> is_Set (syncedVersionIds g)) (localStorage_get (snd (localStorage_set True groups st)))"
  by (simp add: localStorage_set_def localStorage_get_def list_all_iff not_Set_stored)

lemma getAllGroups_all_Set: "list_all (\<lambda>g. is_Set (syncedVersionIds g)) (getAllGroups st)"
  by (simp add: getAllGroups_def list_all_iff is_Set_restore)

lemma getAllGroups_absent:
  "getAllGroups (Some (map (\<lambda>g. g\<lparr>syncedVersionIds := NoIds\<rparr>) groups))
     = map (\<lambda>g. g\<lparr>syncedVersionIds := IdSet []\<rparr>) groups"
  by (simp add: getAllGroups_def localStorage_get_def restore_ids_def new_Set_def comp_def)

text \<open>
  C7. For every collection of groups, writing it with \<^verbatim>\<open>localStorage.set\<close> (the write
  succeeding) and reading it back with \<^verbatim>\<open>getAllGroups\<close> gives, group by group, a synced
  id field with the same members as before, whatever the order; what is stored holds no
  \<^verbatim>\<open>Set\<close> (each was flattened to an array); after every load, of any store, every field
  is a \<^verbatim>\<open>Set\<close>; and a field that is absent in the store is loaded as the empty \<^verbatim>\<open>Set\<close>.
\<close>

theorem roundtrip_syncedVersionIds:
  "map (\<lambda>g. members (syncedVersionIds g)) (getAllGroups (snd (localStorage_set True groups st)))
     = map (\<lambda>g. members (syncedVersionIds g)) groups
   \<and> list_all (\<lambda>g. \<not> is_Set (syncedVersionIds g)) (localStorage_get (snd (localStorage_set True groups st)))
   \<and> list_all (\<lambda>g. is_Set (syncedVersionIds g)) (getAllGroups st)
   \<and> getAllGroups (Some (map (\<lambda>g. g\<lparr>syncedVersionIds := NoIds\<rparr>) groups))
       = map (\<lambda>g. g\<lparr>syncedVersionIds := IdSet []\<rparr>) groups"
  using getAllGroups_set_members stored_no_Set getAllGroups_all_Set getAllGroups_absent
  by blast

subsection \<open>The loops that look for a version\<close>

lemma findIndex_None_iff: "findIndex P xs = None \<longleftrightarrow> (\<forall>x\<in>set xs. \<not> P x)"
  by (induction xs) auto

lemma findIndex_Some:
  "findIndex P xs = Some i \<Longrightarrow> i < length xs \<and> P (xs ! i) \<and> (\<forall>j<i. \<not> P (xs ! j))"
proof (induction xs arbitrary: i)
  case Nil
  then show ?case by simp
next
  case (Cons x xs)
  show ?case
  proof (cases "P x")
    case True
    with Cons.prems show ?thesis by simp
  next
    case False
    with Cons.prems obtain k where k: "findIndex P xs = Some k" "i = Suc k"
      by auto
    from Cons.IH[OF k(1)] False k(2) show ?thesis
      by (auto simp: less_Suc_eq_0_disj)
  qed
qed

lemma findIndex_first:
  "\<forall>x\<in>set pre. \<not> P x \<Longrightarrow> P g \<Longrightarrow> findIndex P (pre @ g # post) = Some (length pre)"
  by (induction pre) auto

lemma findIndex_version_None: "findIndex (\<lambda>v. id_v v = vid) (versions g) = None \<longleftrightarrow> \<not> has_version vid g"
  by (auto simp: findIndex_None_iff has_version_def)

lemma findIndex_version_Some:
  "has_version vid g \<Longrightarrow> \<exists>k. findIndex (\<lambda>v. id_v v = vid) (versions g) = Some k \<and> k < length (versions g)
      \<and> id_v (versions g ! k) = vid"
  using findIndex_version_None[of vid g] findIndex_Some[of "\<lambda>v. id_v v = vid" "versions g"]
  by (cases "findIndex (\<lambda>v. id_v v = vid) (versions g)") auto

lemma setVersionStatus_loop_scan:
  "setVersionStatus_loop t vid s gs = scan_loop (\<lambda>k g. Some (setVersionStatus_group t vid s k g)) vid gs"
  by (induction gs) (auto split: option.splits)

lemma deleteVersion_loop_scan:
  "deleteVersion_loop t vid gs =
     scan_loop (\<lambda>k g. if length (versions g) = 1 then None else Some (deleteVersion_group t k g)) vid gs"
  by (induction gs) (auto split: option.splits)

lemma updateVersion_loop_scan:
  "updateVersion_loop t vid u gs = scan_loop (\<lambda>k g. Some (updateVersion_group t u k g)) vid gs"
  by (induction gs) (auto split: option.splits)

lemma scan_loop_eq:
  "scan_loop body vid gs =
     (case findIndex (has_version vid) gs of
        None \<Rightarrow> None
      | Some i \<Rightarrow>
          map_option (\<lambda>g. gs[i := g])
            (body (the (findIndex (\<lambda>v. id_v v = vid) (versions (gs ! i)))) (gs ! i)))"
proof (induction gs)
  case Nil
  then show ?case by simp
next
  case (Cons g gs)
  show ?case
  proof (cases "findIndex (\<lambda>v. id_v v = vid) (versions g)")
    case None
    then have "\<not> has_version vid g" by (simp add: findIndex_version_None)
    with None Cons.IH show ?thesis
      by (auto split: option.splits simp: map_option_case)
  next
    case (Some k)
    then have "has_version vid g" using findIndex_version_None[of vid g] by auto
    with Some show ?thesis by (simp add: map_option_case split: option.splits)
  qed
qed

lemma has_version_all_ids: "vid \<in> set (all_version_ids gs) \<longleftrightarrow> (\<exists>g\<in>set gs. has_version vid g)"
  by (auto simp: all_version_ids_def has_version_def)

lemma scan_loop_None: "vid \<notin> set (all_version_ids gs) \<Longrightarrow> scan_loop body vid gs = None"
  by (simp add: scan_loop_eq has_version_all_ids findIndex_None_iff[THEN iffD2] split: option.splits)

lemma scan_loop_Some_iff:
  "(\<And>k g. body k g \<noteq> None) \<Longrightarrow>
   scan_loop body vid gs \<noteq> None \<longleftrightarrow> vid \<in> set (all_version_ids gs)"
proof (cases "findIndex (has_version vid) gs")
  case None
  then have "vid \<notin> set (all_version_ids gs)"
    by (simp add: has_version_all_ids findIndex_None_iff)
  with None show ?thesis by (simp add: scan_loop_eq)
next
  case (Some i)
  assume body: "\<And>k g. body k g \<noteq> None"
  from findIndex_Some[OF Some] have "vid \<in> set (all_version_ids gs)"
    by (auto simp: has_version_all_ids)
  with Some body show ?thesis by (simp add: scan_loop_eq)
qed

subsection \<open>Fields through a save and a load\<close>

lemma getAllGroups_after_set:
  "getAllGroups (snd (localStorage_set ok gs st)) = (if ok then map reload gs else getAllGroups st)"
  by (simp add: getAllGroups_def localStorage_set_def localStorage_get_def reload_def)

lemma restore_ids_fields [simp]:
  "id_g (restore_ids g) = id_g g" "versions (restore_ids g) = versions g"
  "currentVersionId (restore_ids g) = currentVersionId g"
  "productionVersionId (restore_ids g) = productionVersionId g"
  "lastModified (restore_ids g) = lastModified g"
  "supabase_id (restore_ids g) = supabase_id g"
  by (simp_all add: restore_ids_def split: synced_ids.splits)

lemma serializable_fields [simp]:
  "id_g (serializable g) = id_g g" "versions (serializable g) = versions g"
  "currentVersionId (serializable g) = currentVersionId g"
  "productionVersionId (serializable g) = productionVersionId g"
  "lastModified (serializable g) = lastModified g"
  "supabase_id (serializable g) = supabase_id g"
  by (simp_all add: serializable_def split: synced_ids.splits)

lemma reload_fields [simp]:
  "id_g (reload g) = id_g g" "versions (reload g) = map JSON_version (versions g)"
  "currentVersionId (reload g) = currentVersionId g"
  "productionVersionId (reload g) = productionVersionId g"
  "lastModified (reload g) = lastModified g"
  "supabase_id (reload g) = supabase_id g"
  by (simp_all add: reload_def JSON_group_def)

lemma JSON_version_fields [simp]:
  "id_v (JSON_version v) = id_v v" "status (JSON_version v) = status v"
  by (simp_all add: JSON_version_def)

lemma getAllGroups_store_ex: "getAllGroups store_ex = [restore_ids g1_ex, restore_ids g2_ex]"
  by (simp add: store_ex_def getAllGroups_def localStorage_get_def)

lemmas ex_defs = g1_ex_def g2_ex_def group_ex_def version_ex_def env_ex_def

subsection \<open>Ids that are not there\<close>

lemma getVersionById_loop_None:
  "vid \<notin> set (all_version_ids gs) \<Longrightarrow> getVersionById_loop vid gs = None"
  by (induction gs) (auto simp: all_version_ids_def find_None_iff split: option.splits)

lemma setVersionStatus_found:
  "fst (setVersionStatus e vid s st) = (vid \<in> set (all_version_ids (getAllGroups st)))"
  using scan_loop_Some_iff[of "\<lambda>k g. Some (setVersionStatus_group (now e) vid s k g)" vid "getAllGroups st"]
  by (auto simp: setVersionStatus_def setVersionStatus_loop_scan split: option.splits)

lemma version_not_found:
  assumes "vid \<notin> set (all_version_ids (getAllGroups st))"
  shows "setVersionStatus e vid s st = (False, st)"
    and "deleteVersion e vid st = (False, st)"
    and "updateVersion e vid vu st = (False, st)"
    and "getVersionById st vid = None"
  using assms
  by (simp_all add: setVersionStatus_def setVersionStatus_loop_scan deleteVersion_def
        deleteVersion_loop_scan updateVersion_def updateVersion_loop_scan scan_loop_None
        getVersionById_def getVersionById_loop_None)

lemma group_not_found:
  assumes "gid \<notin> set (map id_g (getAllGroups st))"
  shows "addVersion e gid c options st = (None, st)"
    and "updateGroup e gid gu st = (False, st)"
    and "getGroupById st gid = None"
proof -
  from assms have "findIndex (\<lambda>g. id_g g = gid) (getAllGroups st) = None"
    by (auto simp: findIndex_None_iff)
  then show "addVersion e gid c options st = (None, st)"
    and "updateGroup e gid gu st = (False, st)"
    by (simp_all add: addVersion_def updateGroup_def)
  from assms show "getGroupById st gid = None"
    by (auto simp: getGroupById_def find_None_iff)
qed

text \<open>
  C8. An id that is not in the store gives \<^verbatim>\<open>null\<close> or \<^verbatim>\<open>false\<close> and leaves the store as it
  was: \<^verbatim>\<open>setVersionStatus\<close> returns \<^verbatim>\<open>true\<close> exactly when some group holds a version of
  that id; for a version id that no group holds, \<^verbatim>\<open>setVersionStatus\<close>, \<^verbatim>\<open>deleteVersion\<close>
  and \<^verbatim>\<open>updateVersion\<close> return \<^verbatim>\<open>false\<close> and \<^verbatim>\<open>getVersionById\<close> returns \<^verbatim>\<open>null\<close>; for a
  group id that no group has, \<^verbatim>\<open>addVersion\<close> and \<^verbatim>\<open>getGroupById\<close> return \<^verbatim>\<open>null\<close> and
  \<^verbatim>\<open>updateGroup\<close> returns \<^verbatim>\<open>false\<close>. None of these paths has a \<^verbatim>\<open>throw\<close> in the source
  (the two of \<^verbatim>\<open>localStorage\<close> are caught there), so the functions have no error result.
\<close>

theorem not_found_returns:
  "fst (setVersionStatus e versionId s st) = (versionId \<in> set (all_version_ids (getAllGroups st)))
   \<and> (versionId \<notin> set (all_version_ids (getAllGroups st)) \<longrightarrow>
        setVersionStatus e versionId s st = (False, st)
        \<and> deleteVersion e versionId st = (False, st)
        \<and> updateVersion e versionId vu st = (False, st)
        \<and> getVersionById st versionId = None)
   \<and> (groupId \<notin> set (map id_g (getAllGroups st)) \<longrightarrow>
        addVersion e groupId c options st = (None, st)
        \<and> updateGroup e groupId gu st = (False, st)
        \<and> getGroupById st groupId = None)"
  by (simp add: setVersionStatus_found version_not_found group_not_found)

theorem not_found_returns_witness:
  "''zz'' \<notin> set (all_version_ids (getAllGroups store_ex))
   \<and> ''gg'' \<notin> set (map id_g (getAllGroups store_ex))
   \<and> fst (setVersionStatus env_ex ''v1'' Current store_ex)
   \<and> setVersionStatus env_ex ''zz'' Current store_ex = (False, store_ex)
   \<and> deleteVersion env_ex ''zz'' store_ex = (False, store_ex)
   \<and> updateVersion env_ex ''zz'' \<lparr>upd_name_v = Some ''n'', upd_description_v = None\<rparr> store_ex = (False, store_ex)
   \<and> getVersionById store_ex ''zz'' = None
   \<and> addVersion env_ex ''gg'' ''c'' \<lparr>opt_name = None, opt_description = None, opt_status = None,
        opt_createdFrom = None, opt_parentVersionId = None\<rparr> store_ex = (None, store_ex)
   \<and> updateGroup env_ex ''gg'' \<lparr>upd_name_g = Some ''n'', upd_description_g = None, upd_tags = None\<rparr> store_ex = (False, store_ex)
   \<and> getGroupById store_ex ''gg'' = None"
proof -
  have h1: "''zz'' \<notin> set (all_version_ids (getAllGroups store_ex))"
    by (simp add: getAllGroups_store_ex all_version_ids_def ex_defs)
  have h2: "''gg'' \<notin> set (map id_g (getAllGroups store_ex))"
    by (simp add: getAllGroups_store_ex ex_defs)
  have h3: "''v1'' \<in> set (all_version_ids (getAllGroups store_ex))"
    by (simp add: getAllGroups_store_ex all_version_ids_def ex_defs)
  from h1 h2 h3
    not_found_returns[of env_ex "''zz''" Current store_ex
      "\<lparr>upd_name_v = Some ''n'', upd_description_v = None\<rparr>" "''gg''" "''c''"
      "\<lparr>opt_name = None, opt_description = None, opt_status = None,
        opt_createdFrom = None, opt_parentVersionId = None\<rparr>"
      "\<lparr>upd_name_g = Some ''n'', upd_description_g = None, upd_tags = None\<rparr>"]
    not_found_returns[of env_ex "''v1''" Current store_ex]
  show ?thesis by blast
qed

subsection \<open>The only version of a group\<close>

lemma deleteVersion_refuses_only_version:
  assumes "getAllGroups st = pre @ g # post" "id_v v \<notin> set (all_version_ids pre)" "versions g = [v]"
  shows "deleteVersion e (id_v v) st = (False, st)"
proof -
  have "findIndex (has_version (id_v v)) (pre @ g # post) = Some (length pre)"
    using assms(2,3) by (intro findIndex_first) (auto simp: has_version_all_ids has_version_def)
  then show ?thesis
    using assms(1,3)
    by (simp add: deleteVersion_def deleteVersion_loop_scan scan_loop_eq)
qed

lemma length_deleteVersion_group:
  "k < length (versions g) \<Longrightarrow>
   length (versions (deleteVersion_group t k g)) = length (versions g) - 1"
  by (auto simp: deleteVersion_group_def Let_def split: list.splits prod.splits)

lemma deleteVersion_nonempty:
  assumes "list_all (\<lambda>g. versions g \<noteq> []) (getAllGroups st)"
  shows "list_all (\<lambda>g. versions g \<noteq> []) (getAllGroups (snd (deleteVersion e vid st)))"
proof (cases "deleteVersion_loop (now e) vid (getAllGroups st)")
  case None
  with assms show ?thesis by (simp add: deleteVersion_def)
next
  case (Some gs')
  let ?gs = "getAllGroups st"
  from Some obtain i where i: "findIndex (has_version vid) ?gs = Some i"
    by (auto simp: deleteVersion_loop_scan scan_loop_eq split: option.splits)
  from findIndex_Some[OF i] have hv: "i < length ?gs" "has_version vid (?gs ! i)" by auto
  from findIndex_version_Some[OF hv(2)] obtain k where
    k: "findIndex (\<lambda>v. id_v v = vid) (versions (?gs ! i)) = Some k" "k < length (versions (?gs ! i))"
    by auto
  from Some i k have ne: "length (versions (?gs ! i)) \<noteq> 1"
    and gs': "gs' = ?gs[i := deleteVersion_group (now e) k (?gs ! i)]"
    by (auto simp: deleteVersion_loop_scan scan_loop_eq split: if_splits)
  from k(2) ne have "versions (deleteVersion_group (now e) k (?gs ! i)) \<noteq> []"
    using length_deleteVersion_group[OF k(2), of "now e"] by (cases "versions (?gs ! i)") auto
  with assms gs' have "list_all (\<lambda>g. versions g \<noteq> []) gs'"
    by (auto simp: list_all_iff dest!: set_update_subset_insert[THEN subsetD])
  with assms Some show ?thesis
    by (auto simp: deleteVersion_def getAllGroups_after_set list_all_iff)
qed

text \<open>
  C5. When the first group that holds a version of the given id (the group the loop
  stops at; the only such group when version ids are unique) has exactly that one
  version, \<^verbatim>\<open>deleteVersion\<close> returns \<^verbatim>\<open>false\<close> and the store is what it was. And if no
  group of the store is empty, none is after \<^verbatim>\<open>deleteVersion\<close>, whatever the id.
\<close>

theorem deleteVersion_only_version:
  "(getAllGroups st = pre @ g # post \<and> id_v v \<notin> set (all_version_ids pre) \<and> versions g = [v]
      \<longrightarrow> deleteVersion e (id_v v) st = (False, st))
   \<and> (list_all (\<lambda>g. versions g \<noteq> []) (getAllGroups st)
      \<longrightarrow> list_all (\<lambda>g. versions g \<noteq> []) (getAllGroups (snd (deleteVersion e versionId st))))"
  using deleteVersion_refuses_only_version deleteVersion_nonempty by blast

theorem deleteVersion_only_version_witness:
  "getAllGroups store_ex = [restore_ids g1_ex] @ restore_ids g2_ex # []
   \<and> id_v (version_ex ''w1'' 1 Current) \<notin> set (all_version_ids [restore_ids g1_ex])
   \<and> versions (restore_ids g2_ex) = [version_ex ''w1'' 1 Current]
   \<and> deleteVersion env_ex (id_v (version_ex ''w1'' 1 Current)) store_ex = (False, store_ex)
   \<and> list_all (\<lambda>g. versions g \<noteq> []) (getAllGroups store_ex)
   \<and> list_all (\<lambda>g. versions g \<noteq> []) (getAllGroups (snd (deleteVersion env_ex ''v1'' store_ex)))"
proof -
  have h1: "getAllGroups store_ex = [restore_ids g1_ex] @ restore_ids g2_ex # []"
    by (simp add: getAllGroups_store_ex)
  have h2: "id_v (version_ex ''w1'' 1 Current) \<notin> set (all_version_ids [restore_ids g1_ex])"
    by (simp add: all_version_ids_def ex_defs)
  have h3: "versions (restore_ids g2_ex) = [version_ex ''w1'' 1 Current]"
    by (simp add: ex_defs)
  have h4: "list_all (\<lambda>g. versions g \<noteq> []) (getAllGroups store_ex)"
    by (simp add: getAllGroups_store_ex ex_defs)
  from h1 h2 h3 h4
    deleteVersion_only_version[of store_ex "[restore_ids g1_ex]" "restore_ids g2_ex" "[]"
      "version_ex ''w1'' 1 Current" env_ex "''v1''"]
  show ?thesis by blast
qed

subsection \<open>What a load returns, and what a save and a load keep\<close>

lemma foldl_Set_add_distinct: "distinct (acc @ xs) \<Longrightarrow> foldl Set_add acc xs = acc @ xs"
  by (induction xs arbitrary: acc) (auto simp: Set_add_def Set_has_def)

lemma distinct_foldl_Set_add: "distinct acc \<Longrightarrow> distinct (foldl Set_add acc xs)"
  by (induction xs arbitrary: acc) (auto simp: Set_add_def Set_has_def)

lemma distinct_new_Set: "distinct (new_Set xs)"
  by (simp add: new_Set_def distinct_foldl_Set_add)

lemma new_Set_distinct: "distinct s \<Longrightarrow> new_Set s = s"
  using foldl_Set_add_distinct[of "[]" s] by (simp add: new_Set_def)

lemma JSON_version_id: "version v \<noteq> NegInfinity \<Longrightarrow> JSON_version v = v"
  by (cases "version v") (simp_all add: JSON_version_def)

lemma map_JSON_version_id: "list_all (\<lambda>v. version v \<noteq> NegInfinity) vs \<Longrightarrow> map JSON_version vs = vs"
  by (induction vs) (simp_all add: JSON_version_id)

lemma reload_loaded: "loaded g \<Longrightarrow> reload g = g"
  by (cases "syncedVersionIds g")
     (simp_all add: loaded_def reload_def restore_ids_def JSON_group_def serializable_def
        Array_from_def new_Set_distinct map_JSON_version_id)

lemma loaded_restore_ids: "json_group g \<Longrightarrow> loaded (restore_ids g)"
  by (cases "syncedVersionIds g")
     (simp_all add: json_group_def loaded_def restore_ids_def distinct_new_Set)

lemma loaded_getAllGroups: "json_storage st \<Longrightarrow> list_all loaded (getAllGroups st)"
  by (simp add: json_storage_def getAllGroups_def list_all_iff loaded_restore_ids)

lemma map_reload_loaded: "list_all loaded gs \<Longrightarrow> map reload gs = gs"
  by (induction gs) (simp_all add: reload_loaded)

lemma json_group_stored: "json_group (JSON_group (serializable g))"
proof -
  have "list_all (\<lambda>v. version v \<noteq> NegInfinity) (versions (JSON_group (serializable g)))"
    by (auto simp: JSON_group_def JSON_version_def list_all_iff split: jsnumber.splits)
  then show ?thesis by (simp add: json_group_def not_Set_stored)
qed

lemma json_storage_after_set: "json_storage (snd (localStorage_set True gs st))"
  by (simp add: json_storage_def localStorage_set_def localStorage_get_def list_all_iff
        json_group_stored)

lemma json_storage_None: "json_storage None"
  by (simp add: json_storage_def localStorage_get_def)

lemma json_storage_store_ex: "json_storage store_ex"
  by (simp add: json_storage_def localStorage_get_def store_ex_def json_group_def ex_defs)

lemma json_storage_store_prod: "json_storage store_prod"
  by (simp add: json_storage_def localStorage_get_def store_prod_def json_group_def g3_ex_def ex_defs)

subsection \<open>The bodies of the loops\<close>

lemma map_update_same: "f y = f (xs ! k) \<Longrightarrow> map f (xs[k := y]) = map f xs"
proof (rule nth_equalityI)
  show "length (map f (xs[k := y])) = length (map f xs)" by simp
next
  fix i assume a: "f y = f (xs ! k)" "i < length (map f (xs[k := y]))"
  then show "map f (xs[k := y]) ! i = map f xs ! i"
    by (cases "i = k") simp_all
qed

lemma loaded_cong:
  "syncedVersionIds g' = syncedVersionIds g \<Longrightarrow> set (map version (versions g')) \<subseteq> set (map version (versions g))
   \<Longrightarrow> loaded g \<Longrightarrow> loaded g'"
  by (auto simp: loaded_def list_all_iff)

lemma length_clear_status [simp]: "length (clear_status s k vs) = length vs"
  by (simp add: clear_status_def)

lemma nth_clear_status:
  "i < length vs \<Longrightarrow>
   clear_status s k vs ! i = (if i \<noteq> k \<and> status (vs ! i) = s then (vs ! i)\<lparr>status := Draft\<rparr> else vs ! i)"
  by (simp add: clear_status_def nth_enumerate_eq)

lemma map_version_clear_status [simp]: "map version (clear_status s k vs) = map version vs"
  by (rule nth_equalityI) (simp_all add: nth_clear_status)

lemma map_id_v_clear_status [simp]: "map id_v (clear_status s k vs) = map id_v vs"
  by (rule nth_equalityI) (simp_all add: nth_clear_status)

lemma setVersionStatus_group_Draft:
  "setVersionStatus_group t vid Draft k g =
     g\<lparr>versions := (versions g)[k := (versions g ! k)\<lparr>status := Draft\<rparr>], lastModified := t\<rparr>"
  by (simp add: setVersionStatus_group_def Let_def)

lemma setVersionStatus_group_fields [simp]:
  "syncedVersionIds (setVersionStatus_group t vid s k g) = syncedVersionIds g"
  "id_g (setVersionStatus_group t vid s k g) = id_g g"
  "length (versions (setVersionStatus_group t vid s k g)) = length (versions g)"
  "lastModified (setVersionStatus_group t vid s k g) = t"
  by (simp_all add: setVersionStatus_group_def Let_def)

lemma setVersionStatus_group_versions [simp]:
  "map version (versions (setVersionStatus_group t vid s k g)) = map version (versions g)"
  "map id_v (versions (setVersionStatus_group t vid s k g)) = map id_v (versions g)"
proof -
  have "k < length (versions g) \<Longrightarrow> version (clear_status s k (versions g) ! k) = version (versions g ! k)"
       "k < length (versions g) \<Longrightarrow> id_v (clear_status s k (versions g) ! k) = id_v (versions g ! k)"
    by (simp_all add: nth_clear_status)
  then show "map version (versions (setVersionStatus_group t vid s k g)) = map version (versions g)"
    "map id_v (versions (setVersionStatus_group t vid s k g)) = map id_v (versions g)"
    by (cases "k < length (versions g)"; simp add: setVersionStatus_group_def Let_def
          map_update_same list_update_beyond)+
qed

lemma loaded_setVersionStatus_group: "loaded g \<Longrightarrow> loaded (setVersionStatus_group t vid s k g)"
  by (rule loaded_cong[where g = g]) simp_all

lemma updateVersion_group_fields [simp]:
  "syncedVersionIds (updateVersion_group t u k g) = syncedVersionIds g"
  "id_g (updateVersion_group t u k g) = id_g g"
  "map version (versions (updateVersion_group t u k g)) = map version (versions g)"
  "map id_v (versions (updateVersion_group t u k g)) = map id_v (versions g)"
  "map status (versions (updateVersion_group t u k g)) = map status (versions g)"
  by (simp_all add: updateVersion_group_def spread_version_def map_update_same)

lemma loaded_updateVersion_group: "loaded g \<Longrightarrow> loaded (updateVersion_group t u k g)"
  by (rule loaded_cong[where g = g]) simp_all

lemma deleteVersion_group_ids [simp]:
  "syncedVersionIds (deleteVersion_group t k g) = syncedVersionIds g"
  "id_g (deleteVersion_group t k g) = id_g g"
  by (simp_all add: deleteVersion_group_def Let_def split: list.splits prod.splits)

lemma js_less_trans: "js_less a b \<Longrightarrow> js_less b c \<Longrightarrow> js_less a c"
  by (cases a; cases b; cases c) (auto simp: js_less_def)

lemma js_less_asym: "js_less a b \<Longrightarrow> \<not> js_less b a"
  by (cases a; cases b) (auto simp: js_less_def)

lemma js_less_irrefl: "\<not> js_less a a"
  by (cases a) (auto simp: js_less_def)

lemma set_insert_desc: "set (insert_desc a bs) = insert a (set bs)"
  by (induction bs) auto

lemma set_sort_desc_aux: "set (foldl (\<lambda>sorted a. insert_desc a sorted) acc xs) = set acc \<union> set xs"
  by (induction xs arbitrary: acc) (auto simp: set_insert_desc)

lemma set_sort_desc: "set (sort_desc xs) = set xs"
  by (simp add: sort_desc_def set_sort_desc_aux)

lemma sorted_insert_desc:
  "sorted_wrt ge_version bs \<Longrightarrow> sorted_wrt ge_version (insert_desc a bs)"
proof (induction bs)
  case Nil
  then show ?case by simp
next
  case (Cons b bs)
  show ?case
  proof (cases "js_less (version (snd b)) (version (snd a))")
    case True
    have "ge_version a b" using True by (simp add: ge_version_def js_less_asym)
    moreover have "ge_version a y" if "y \<in> set bs" for y
    proof -
      from Cons.prems that have "\<not> js_less (version (snd b)) (version (snd y))"
        by (simp add: ge_version_def)
      with True show ?thesis
        unfolding ge_version_def using js_less_trans by blast
    qed
    ultimately show ?thesis using True Cons.prems by simp
  next
    case False
    then have "ge_version b a" by (simp add: ge_version_def)
    with False Cons show ?thesis by (auto simp: set_insert_desc)
  qed
qed

lemma sorted_sort_desc_aux:
  "sorted_wrt ge_version acc \<Longrightarrow> sorted_wrt ge_version (foldl (\<lambda>sorted a. insert_desc a sorted) acc xs)"
  by (induction xs arbitrary: acc) (simp_all add: sorted_insert_desc)

lemma sorted_sort_desc: "sorted_wrt ge_version (sort_desc xs)"
  by (simp add: sort_desc_def sorted_sort_desc_aux)

lemma sort_desc_head:
  assumes "sort_desc xs = a # rest"
  shows "a \<in> set xs" and "\<forall>y\<in>set xs. \<not> js_less (version (snd a)) (version (snd y))"
proof -
  from assms set_sort_desc[of xs] show "a \<in> set xs" by auto
  from sorted_sort_desc[of xs] assms have "\<forall>y\<in>set rest. ge_version a y" by simp
  moreover have "set xs = insert a (set rest)" using assms set_sort_desc[of xs] by auto
  ultimately show "\<forall>y\<in>set xs. \<not> js_less (version (snd a)) (version (snd y))"
    by (auto simp: ge_version_def js_less_irrefl)
qed

lemma sort_desc_Nil: "sort_desc xs = [] \<longleftrightarrow> xs = []"
  using set_sort_desc[of xs] by (metis set_empty)

lemma in_enumerate: "(i, v) \<in> set (enumerate 0 vs) \<longleftrightarrow> i < length vs \<and> v = vs ! i"
  by (auto simp: in_set_enumerate_eq)

lemma sort_desc_remaining_head:
  assumes "sort_desc (filter (\<lambda>(idx, v). idx \<noteq> k) (enumerate 0 vs)) = (latest, lv) # rest"
  shows "latest < length vs" "latest \<noteq> k" "lv = vs ! latest"
    "\<forall>j<length vs. j \<noteq> k \<longrightarrow> \<not> js_less (version (vs ! latest)) (version (vs ! j))"
proof -
  from sort_desc_head(1)[OF assms] show a: "latest < length vs" "latest \<noteq> k" "lv = vs ! latest"
    by (auto simp: in_enumerate)
  show "\<forall>j<length vs. j \<noteq> k \<longrightarrow> \<not> js_less (version (vs ! latest)) (version (vs ! j))"
  proof (intro allI impI)
    fix j assume j: "j < length vs" "j \<noteq> k"
    then have "(j, vs ! j) \<in> set (filter (\<lambda>(idx, v). idx \<noteq> k) (enumerate 0 vs))"
      by (simp add: in_enumerate)
    with sort_desc_head(2)[OF assms] a(3)
    show "\<not> js_less (version (vs ! latest)) (version (vs ! j))" by fastforce
  qed
qed

lemma sort_desc_remaining_nonempty:
  assumes "k < length vs" "length vs \<noteq> 1"
  shows "sort_desc (filter (\<lambda>(idx, v). idx \<noteq> k) (enumerate 0 vs)) \<noteq> []"
proof -
  have "\<exists>j<length vs. j \<noteq> k"
  proof (cases "k = 0")
    case True
    with assms have "Suc 0 < length vs" by (cases vs) auto
    with True show ?thesis by (intro exI[of _ "Suc 0"]) simp
  next
    case False
    with assms show ?thesis by (intro exI[of _ 0]) auto
  qed
  then obtain j where j: "j < length vs" "j \<noteq> k" by blast
  then have "(j, vs ! j) \<in> set (filter (\<lambda>(idx, v). idx \<noteq> k) (enumerate 0 vs))"
    by (simp add: in_enumerate)
  then have "filter (\<lambda>(idx, v). idx \<noteq> k) (enumerate 0 vs) \<noteq> []"
    by (metis empty_iff set_empty)
  then show ?thesis by (simp add: sort_desc_Nil)
qed

lemma deleteVersion_group_Current:
  assumes "k < length (versions g)" "length (versions g) \<noteq> 1" "status (versions g ! k) = Current"
  shows "\<exists>latest<length (versions g). latest \<noteq> k
           \<and> (\<forall>j<length (versions g). j \<noteq> k \<longrightarrow>
                 \<not> js_less (version (versions g ! latest)) (version (versions g ! j)))
           \<and> deleteVersion_group t k g =
               g\<lparr>versions := remaining k ((versions g)[latest := (versions g ! latest)\<lparr>status := Current\<rparr>]),
                 currentVersionId := id_v (versions g ! latest), lastModified := t\<rparr>"
proof -
  let ?vs = "versions g"
  from sort_desc_remaining_nonempty[OF assms(1,2)] obtain latest lv rest where
    sd: "sort_desc (filter (\<lambda>(idx, v). idx \<noteq> k) (enumerate 0 ?vs)) = (latest, lv) # rest"
    by (cases "sort_desc (filter (\<lambda>(idx, v). idx \<noteq> k) (enumerate 0 ?vs))") auto
  note h = sort_desc_remaining_head[OF sd]
  have "deleteVersion_group t k g =
          g\<lparr>versions := remaining k (?vs[latest := (?vs ! latest)\<lparr>status := Current\<rparr>]),
            currentVersionId := id_v (?vs ! latest), lastModified := t\<rparr>"
    using assms(3) sd h(3) by (simp add: deleteVersion_group_def Let_def remaining_def)
  with h show ?thesis by blast
qed

lemma deleteVersion_group_not_Current:
  assumes "status (versions g ! k) \<noteq> Current"
  shows "deleteVersion_group t k g =
           (if status (versions g ! k) = Production
            then g\<lparr>productionVersionId := None, versions := remaining k (versions g), lastModified := t\<rparr>
            else g\<lparr>versions := remaining k (versions g), lastModified := t\<rparr>)"
  using assms by (simp add: deleteVersion_group_def Let_def remaining_def)

lemma map_remaining: "map f (remaining k vs) = remaining k (map f vs)"
  by (simp add: remaining_def take_map drop_map)

lemma set_remaining: "set (remaining k vs) \<subseteq> set vs"
  by (auto simp: remaining_def dest: in_set_takeD in_set_dropD)

lemma deleteVersion_group_maps:
  assumes "k < length (versions g)" "length (versions g) \<noteq> 1"
  shows "map version (versions (deleteVersion_group t k g)) = remaining k (map version (versions g))"
    and "map id_v (versions (deleteVersion_group t k g)) = remaining k (map id_v (versions g))"
proof -
  show "map version (versions (deleteVersion_group t k g)) = remaining k (map version (versions g))"
  proof (cases "status (versions g ! k) = Current")
    case True
    from deleteVersion_group_Current[OF assms True, of t] show ?thesis
      by (auto simp: map_remaining map_update_same)
  next
    case False
    then show ?thesis by (simp add: deleteVersion_group_not_Current map_remaining)
  qed
  show "map id_v (versions (deleteVersion_group t k g)) = remaining k (map id_v (versions g))"
  proof (cases "status (versions g ! k) = Current")
    case True
    from deleteVersion_group_Current[OF assms True, of t] show ?thesis
      by (auto simp: map_remaining map_update_same)
  next
    case False
    then show ?thesis by (simp add: deleteVersion_group_not_Current map_remaining)
  qed
qed

lemma loaded_deleteVersion_group:
  assumes "k < length (versions g)" "length (versions g) \<noteq> 1" "loaded g"
  shows "loaded (deleteVersion_group t k g)"
proof (rule loaded_cong[OF _ _ assms(3)])
  show "syncedVersionIds (deleteVersion_group t k g) = syncedVersionIds g" by simp
  show "set (map version (versions (deleteVersion_group t k g))) \<subseteq> set (map version (versions g))"
    unfolding deleteVersion_group_maps(1)[OF assms(1,2)] by (rule set_remaining)
qed

subsection \<open>The operations on a version, seen through \<open>getAllGroups\<close>\<close>

lemma scan_loop_Some:
  assumes "scan_loop body vid gs = Some gs1"
  shows "\<exists>i k g'. findIndex (has_version vid) gs = Some i \<and> i < length gs
            \<and> findIndex (\<lambda>v. id_v v = vid) (versions (gs ! i)) = Some k
            \<and> k < length (versions (gs ! i))
            \<and> body k (gs ! i) = Some g' \<and> gs1 = gs[i := g']"
proof -
  from assms obtain i where i: "findIndex (has_version vid) gs = Some i"
    by (auto simp: scan_loop_eq split: option.splits)
  from findIndex_Some[OF i] have hv: "i < length gs" "has_version vid (gs ! i)" by auto
  from findIndex_version_Some[OF hv(2)] obtain k where
    k: "findIndex (\<lambda>v. id_v v = vid) (versions (gs ! i)) = Some k" "k < length (versions (gs ! i))"
    by auto
  from assms i k obtain g' where "body k (gs ! i) = Some g'" "gs1 = gs[i := g']"
    by (auto simp: scan_loop_eq)
  with i hv(1) k show ?thesis by blast
qed

lemma scan_loaded:
  assumes "list_all loaded gs" "scan_loop body vid gs = Some gs1"
    and "\<And>k g g'. k < length (versions g) \<Longrightarrow> loaded g \<Longrightarrow> body k g = Some g' \<Longrightarrow> loaded g'"
  shows "list_all loaded gs1"
proof -
  from scan_loop_Some[OF assms(2)] obtain i k g' where
    h: "i < length gs" "k < length (versions (gs ! i))" "body k (gs ! i) = Some g'" "gs1 = gs[i := g']"
    by blast
  from assms(1) h(1) have "loaded (gs ! i)" by (simp add: list_all_length)
  from assms(3)[OF h(2) this h(3)] assms(1) h(4) show ?thesis
    by (auto simp: list_all_iff dest!: set_update_subset_insert[THEN subsetD])
qed

lemma frame_refl: "frame vid gs gs"
  by (simp add: frame_def split: option.splits)

lemma frame_scan: "scan_loop body vid gs = Some gs1 \<Longrightarrow> frame vid gs gs1"
  using scan_loop_Some[of body vid gs gs1] by (auto simp: frame_def)

lemma setVersionStatus_view:
  assumes "json_storage st"
  shows "getAllGroups (snd (setVersionStatus e vid s st)) =
           (case setVersionStatus_loop (now e) vid s (getAllGroups st) of
              None \<Rightarrow> getAllGroups st
            | Some gs1 \<Rightarrow> if setItem_ok e then gs1 else getAllGroups st)"
proof (cases "setVersionStatus_loop (now e) vid s (getAllGroups st)")
  case None
  then show ?thesis by (simp add: setVersionStatus_def)
next
  case (Some gs1)
  then have "list_all loaded gs1"
    unfolding setVersionStatus_loop_scan
    by (rule scan_loaded[OF loaded_getAllGroups[OF assms]]) (auto simp: loaded_setVersionStatus_group)
  with Some show ?thesis
    by (simp add: setVersionStatus_def getAllGroups_after_set map_reload_loaded)
qed

lemma updateVersion_view:
  assumes "json_storage st"
  shows "getAllGroups (snd (updateVersion e vid u st)) =
           (case updateVersion_loop (now e) vid u (getAllGroups st) of
              None \<Rightarrow> getAllGroups st
            | Some gs1 \<Rightarrow> if setItem_ok e then gs1 else getAllGroups st)"
proof (cases "updateVersion_loop (now e) vid u (getAllGroups st)")
  case None
  then show ?thesis by (simp add: updateVersion_def)
next
  case (Some gs1)
  then have "list_all loaded gs1"
    unfolding updateVersion_loop_scan
    by (rule scan_loaded[OF loaded_getAllGroups[OF assms]]) (auto simp: loaded_updateVersion_group)
  with Some show ?thesis
    by (simp add: updateVersion_def getAllGroups_after_set map_reload_loaded)
qed

lemma deleteVersion_view:
  assumes "json_storage st"
  shows "getAllGroups (snd (deleteVersion e vid st)) =
           (case deleteVersion_loop (now e) vid (getAllGroups st) of
              None \<Rightarrow> getAllGroups st
            | Some gs1 \<Rightarrow> if setItem_ok e then gs1 else getAllGroups st)"
proof (cases "deleteVersion_loop (now e) vid (getAllGroups st)")
  case None
  then show ?thesis by (simp add: deleteVersion_def)
next
  case (Some gs1)
  then have "list_all loaded gs1"
    unfolding deleteVersion_loop_scan
    by (rule scan_loaded[OF loaded_getAllGroups[OF assms]])
       (auto simp: loaded_deleteVersion_group split: if_splits)
  with Some show ?thesis
    by (simp add: deleteVersion_def getAllGroups_after_set map_reload_loaded)
qed

lemma frame_setVersionStatus:
  "json_storage st \<Longrightarrow> frame vid (getAllGroups st) (getAllGroups (snd (setVersionStatus e vid s st)))"
  by (auto simp: setVersionStatus_view setVersionStatus_loop_scan frame_refl frame_scan split: option.splits)

lemma frame_deleteVersion:
  "json_storage st \<Longrightarrow> frame vid (getAllGroups st) (getAllGroups (snd (deleteVersion e vid st)))"
  by (auto simp: deleteVersion_view deleteVersion_loop_scan frame_refl frame_scan split: option.splits)

lemma frame_updateVersion:
  "json_storage st \<Longrightarrow> frame vid (getAllGroups st) (getAllGroups (snd (updateVersion e vid u st)))"
  by (auto simp: updateVersion_view updateVersion_loop_scan frame_refl frame_scan split: option.splits)

text \<open>
  C10. On a store that holds JSON, \<^verbatim>\<open>setVersionStatus\<close>, \<^verbatim>\<open>deleteVersion\<close> and
  \<^verbatim>\<open>updateVersion\<close> leave every group but one as \<^verbatim>\<open>getAllGroups\<close> showed it before: when
  no group holds a version of the id nothing changes, and otherwise the groups before
  and after the first holder (in stored order) are the same and as many. No uniqueness
  of version ids is assumed, so a second holder further on is left alone.
\<close>

theorem version_operations_frame:
  "json_storage st \<Longrightarrow>
     frame versionId (getAllGroups st) (getAllGroups (snd (setVersionStatus e versionId s st)))
   \<and> frame versionId (getAllGroups st) (getAllGroups (snd (deleteVersion e versionId st)))
   \<and> frame versionId (getAllGroups st) (getAllGroups (snd (updateVersion e versionId updates st)))"
  by (simp add: frame_setVersionStatus frame_deleteVersion frame_updateVersion)

theorem version_operations_frame_witness:
  "json_storage store_ex
   \<and> frame ''w1'' (getAllGroups store_ex) (getAllGroups (snd (setVersionStatus env_ex ''w1'' Production store_ex)))
   \<and> frame ''w1'' (getAllGroups store_ex) (getAllGroups (snd (deleteVersion env_ex ''w1'' store_ex)))
   \<and> frame ''w1'' (getAllGroups store_ex)
        (getAllGroups (snd (updateVersion env_ex ''w1'' \<lparr>upd_name_v = Some ''n'', upd_description_v = None\<rparr> store_ex)))
   \<and> findIndex (has_version ''w1'') (getAllGroups store_ex) = Some 1
   \<and> getAllGroups (snd (setVersionStatus env_ex ''w1'' Production store_ex)) ! 0 = getAllGroups store_ex ! 0"
proof -
  have ev: "findIndex (has_version ''w1'') (getAllGroups store_ex) = Some 1"
    by (simp add: getAllGroups_store_ex has_version_def ex_defs)
  note f = version_operations_frame[OF json_storage_store_ex, of "''w1''" env_ex Production
      "\<lparr>upd_name_v = Some ''n'', upd_description_v = None\<rparr>"]
  from f ev have "take 1 (getAllGroups (snd (setVersionStatus env_ex ''w1'' Production store_ex)))
      = take 1 (getAllGroups store_ex)"
    "length (getAllGroups (snd (setVersionStatus env_ex ''w1'' Production store_ex))) = length (getAllGroups store_ex)"
    by (simp_all add: frame_def)
  then have "getAllGroups (snd (setVersionStatus env_ex ''w1'' Production store_ex)) ! 0 = getAllGroups store_ex ! 0"
    by (metis nth_take zero_less_one)
  with f ev json_storage_store_ex show ?thesis by blast
qed

subsection \<open>Demoting to draft\<close>

lemma in_remaining:
  assumes "x \<in> set (remaining k xs)"
  shows "\<exists>j<length xs. j \<noteq> k \<and> x = xs ! j"
proof -
  from assms consider "x \<in> set (take k xs)" | "x \<in> set (drop (Suc k) xs)"
    by (auto simp: remaining_def)
  then show ?thesis
  proof cases
    case 1
    then obtain i where "i < length (take k xs)" "take k xs ! i = x"
      by (auto simp: in_set_conv_nth)
    then show ?thesis by (intro exI[of _ i]) auto
  next
    case 2
    then obtain i where "i < length (drop (Suc k) xs)" "drop (Suc k) xs ! i = x"
      by (auto simp: in_set_conv_nth)
    then show ?thesis by (intro exI[of _ "Suc k + i"]) auto
  qed
qed

lemma scan_loop_at:
  assumes "gs = pre @ g # post" "vid \<notin> set (all_version_ids pre)"
    "findIndex (\<lambda>v. id_v v = vid) (versions g) = Some k"
  shows "scan_loop body vid gs = map_option (\<lambda>g'. pre @ g' # post) (body k g)"
proof -
  from assms(3) have "has_version vid g" using findIndex_version_None[of vid g] by auto
  with assms(2) have "findIndex (has_version vid) (pre @ g # post) = Some (length pre)"
    by (intro findIndex_first) (auto simp: has_version_all_ids)
  with assms(1,3) show ?thesis
    by (simp add: scan_loop_eq map_option_case split: option.splits)
qed

lemma setVersionStatus_at:
  assumes "json_storage st" "getAllGroups st = pre @ g # post" "vid \<notin> set (all_version_ids pre)"
    "findIndex (\<lambda>v. id_v v = vid) (versions g) = Some k"
  shows "fst (setVersionStatus e vid s st)"
    and "getAllGroups (snd (setVersionStatus e vid s st)) =
           (if setItem_ok e then pre @ setVersionStatus_group (now e) vid s k g # post
            else getAllGroups st)"
proof -
  have l: "setVersionStatus_loop (now e) vid s (getAllGroups st)
             = Some (pre @ setVersionStatus_group (now e) vid s k g # post)"
    by (simp add: setVersionStatus_loop_scan scan_loop_at[OF assms(2,3,4)])
  then show "fst (setVersionStatus e vid s st)" by (simp add: setVersionStatus_def)
  from l show "getAllGroups (snd (setVersionStatus e vid s st)) =
           (if setItem_ok e then pre @ setVersionStatus_group (now e) vid s k g # post
            else getAllGroups st)"
    by (simp add: setVersionStatus_view[OF assms(1)])
qed

text \<open>
  C9. Let \<open>g\<close> be the first group holding a version of id \<open>versionId\<close>, at index \<open>k\<close> of its
  versions. Then \<^verbatim>\<open>setVersionStatus(versionId, 'draft')\<close> returns \<^verbatim>\<open>true\<close>, and the groups
  read back are the former ones with, in \<open>g\<close>, the status of that one version set to draft
  and \<^verbatim>\<open>lastModified\<close> set to the time of the call (or exactly the former ones, when the
  write failed). In particular \<^verbatim>\<open>currentVersionId\<close> and \<^verbatim>\<open>productionVersionId\<close> of \<open>g\<close> are
  what they were, also when they name the demoted version.
\<close>

theorem setVersionStatus_draft:
  assumes "json_storage st" and "getAllGroups st = pre @ g # post"
    and "versionId \<notin> set (all_version_ids pre)"
    and "findIndex (\<lambda>v. id_v v = versionId) (versions g) = Some k"
  shows "fst (setVersionStatus e versionId Draft st)
       \<and> getAllGroups (snd (setVersionStatus e versionId Draft st)) =
           (if setItem_ok e
            then pre @ g\<lparr>versions := (versions g)[k := (versions g ! k)\<lparr>status := Draft\<rparr>],
                         lastModified := now e\<rparr> # post
            else getAllGroups st)
       \<and> currentVersionId (getAllGroups (snd (setVersionStatus e versionId Draft st)) ! length pre)
           = currentVersionId g
       \<and> productionVersionId (getAllGroups (snd (setVersionStatus e versionId Draft st)) ! length pre)
           = productionVersionId g"
  using setVersionStatus_at[OF assms, of e Draft] assms(2)
  by (simp add: setVersionStatus_group_Draft)

theorem setVersionStatus_draft_witness:
  "json_storage store_ex
   \<and> getAllGroups store_ex = [] @ restore_ids g1_ex # [restore_ids g2_ex]
   \<and> ''v2'' \<notin> set (all_version_ids [])
   \<and> findIndex (\<lambda>v. id_v v = ''v2'') (versions (restore_ids g1_ex)) = Some 1
   \<and> fst (setVersionStatus env_ex ''v2'' Draft store_ex)
   \<and> getAllGroups (snd (setVersionStatus env_ex ''v2'' Draft store_ex)) =
       (if setItem_ok env_ex
        then [] @ (restore_ids g1_ex)\<lparr>versions := (versions (restore_ids g1_ex))
                      [1 := (versions (restore_ids g1_ex) ! 1)\<lparr>status := Draft\<rparr>],
                    lastModified := now env_ex\<rparr> # [restore_ids g2_ex]
        else getAllGroups store_ex)
   \<and> currentVersionId (getAllGroups (snd (setVersionStatus env_ex ''v2'' Draft store_ex)) ! length ([] :: PromptGroup list))
       = currentVersionId (restore_ids g1_ex)
   \<and> productionVersionId (getAllGroups (snd (setVersionStatus env_ex ''v2'' Draft store_ex)) ! length ([] :: PromptGroup list))
       = productionVersionId (restore_ids g1_ex)
   \<and> currentVersionId (restore_ids g1_ex) = ''v2''"
proof -
  have h2: "getAllGroups store_ex = [] @ restore_ids g1_ex # [restore_ids g2_ex]"
    by (simp add: getAllGroups_store_ex)
  have h3: "''v2'' \<notin> set (all_version_ids [])" by (simp add: all_version_ids_def)
  have h4: "findIndex (\<lambda>v. id_v v = ''v2'') (versions (restore_ids g1_ex)) = Some 1"
    by (simp add: ex_defs)
  have ev: "currentVersionId (restore_ids g1_ex) = ''v2''" by (simp add: ex_defs)
  from setVersionStatus_draft[OF json_storage_store_ex h2 h3 h4, of env_ex]
    json_storage_store_ex h2 h3 h4 ev
  show ?thesis by blast
qed

subsection \<open>Deleting a version\<close>

lemma deleteVersion_at:
  assumes "json_storage st" "getAllGroups st = pre @ g # post" "vid \<notin> set (all_version_ids pre)"
    "findIndex (\<lambda>v. id_v v = vid) (versions g) = Some k" "length (versions g) \<noteq> 1"
  shows "fst (deleteVersion e vid st)"
    and "getAllGroups (snd (deleteVersion e vid st)) =
           (if setItem_ok e then pre @ deleteVersion_group (now e) k g # post
            else getAllGroups st)"
proof -
  have l: "deleteVersion_loop (now e) vid (getAllGroups st)
             = Some (pre @ deleteVersion_group (now e) k g # post)"
    using assms(5) by (simp add: deleteVersion_loop_scan scan_loop_at[OF assms(2,3,4)])
  then show "fst (deleteVersion e vid st)" by (simp add: deleteVersion_def)
  from l show "getAllGroups (snd (deleteVersion e vid st)) =
           (if setItem_ok e then pre @ deleteVersion_group (now e) k g # post
            else getAllGroups st)"
    by (simp add: deleteVersion_view[OF assms(1)])
qed

text \<open>
  C3. Let \<open>g\<close> be the first group holding a version of id \<open>versionId\<close>, at index \<open>k\<close>, with
  more than one version, and let the write succeed. Then \<^verbatim>\<open>deleteVersion\<close> returns
  \<^verbatim>\<open>true\<close> and the group read back has the other versions, in order. If the deleted
  version was current, one of them has status current, no other has a higher version
  number, and \<^verbatim>\<open>currentVersionId\<close> is its id. If the deleted version was in production,
  \<^verbatim>\<open>productionVersionId\<close> is cleared and the other versions are exactly as they were (none
  is promoted). The witness includes the scenario of the spec: \<open>v1\<close> (draft, 1) and \<open>v2\<close>
  (current, 2), \<^verbatim>\<open>deleteVersion(v2.id)\<close>, then \<^verbatim>\<open>getGroupById\<close>.
\<close>

theorem deleteVersion_promotes:
  assumes "json_storage st" and "getAllGroups st = pre @ g # post"
    and "versionId \<notin> set (all_version_ids pre)"
    and "findIndex (\<lambda>v. id_v v = versionId) (versions g) = Some k"
    and "length (versions g) > 1" and "setItem_ok e"
  shows "fst (deleteVersion e versionId st)
       \<and> map id_v (versions (getAllGroups (snd (deleteVersion e versionId st)) ! length pre))
           = remaining k (map id_v (versions g))
       \<and> (status (versions g ! k) = Current \<longrightarrow>
            (\<exists>latest \<in> set (versions (getAllGroups (snd (deleteVersion e versionId st)) ! length pre)).
               status latest = Current
               \<and> currentVersionId (getAllGroups (snd (deleteVersion e versionId st)) ! length pre) = id_v latest
               \<and> (\<forall>v \<in> set (versions (getAllGroups (snd (deleteVersion e versionId st)) ! length pre)).
                     \<not> js_less (version latest) (version v))))
       \<and> (status (versions g ! k) = Production \<longrightarrow>
            productionVersionId (getAllGroups (snd (deleteVersion e versionId st)) ! length pre) = None
            \<and> versions (getAllGroups (snd (deleteVersion e versionId st)) ! length pre)
                = remaining k (versions g))"
proof -
  let ?g' = "getAllGroups (snd (deleteVersion e versionId st)) ! length pre"
  from assms(5) have ne: "length (versions g) \<noteq> 1" by simp
  from findIndex_Some[OF assms(4)] have k: "k < length (versions g)" by simp
  note at = deleteVersion_at[OF assms(1-4) ne, of e]
  from at(2) assms(6) have g': "?g' = deleteVersion_group (now e) k g" by simp
  have ids: "map id_v (versions ?g') = remaining k (map id_v (versions g))"
    by (simp add: g' deleteVersion_group_maps[OF k ne])
  have cur: "\<exists>latest \<in> set (versions ?g'). status latest = Current
               \<and> currentVersionId ?g' = id_v latest
               \<and> (\<forall>v \<in> set (versions ?g'). \<not> js_less (version latest) (version v))"
    if c: "status (versions g ! k) = Current"
  proof -
    let ?vs = "versions g"
    from deleteVersion_group_Current[OF k ne c, of "now e"] obtain latest where
      l: "latest < length ?vs" "latest \<noteq> k"
         "\<forall>j<length ?vs. j \<noteq> k \<longrightarrow> \<not> js_less (version (?vs ! latest)) (version (?vs ! j))"
         "deleteVersion_group (now e) k g =
            g\<lparr>versions := remaining k (?vs[latest := (?vs ! latest)\<lparr>status := Current\<rparr>]),
              currentVersionId := id_v (?vs ! latest), lastModified := now e\<rparr>"
      by blast
    let ?us = "?vs[latest := (?vs ! latest)\<lparr>status := Current\<rparr>]"
    let ?l = "(?vs ! latest)\<lparr>status := Current\<rparr>"
    have vs': "versions ?g' = remaining k ?us" by (simp add: g' l(4))
    have mem: "?l \<in> set (remaining k ?us)"
    proof (cases "latest < k")
      case True
      with l(1) k have "take k ?us ! latest = ?l" by simp
      moreover from True k have "latest < length (take k ?us)" by simp
      ultimately have "?l \<in> set (take k ?us)" by (metis nth_mem)
      then show ?thesis by (simp add: remaining_def)
    next
      case False
      with l(2) have gt: "k < latest" by simp
      with l(1) have "drop (Suc k) ?us ! (latest - Suc k) = ?l" by simp
      moreover from gt l(1) have "latest - Suc k < length (drop (Suc k) ?us)" by simp
      ultimately have "?l \<in> set (drop (Suc k) ?us)" by (metis nth_mem)
      then show ?thesis by (simp add: remaining_def)
    qed
    have maxi: "\<not> js_less (version ?l) (version v)" if "v \<in> set (remaining k ?us)" for v
    proof -
      have "version v \<in> set (map version (remaining k ?us))" using that by simp
      also have "map version (remaining k ?us) = remaining k (map version ?vs)"
        by (simp add: map_remaining map_update_same)
      finally have "version v \<in> set (remaining k (map version ?vs))" .
      from in_remaining[OF this] obtain j where "j < length ?vs" "j \<noteq> k" "version v = version (?vs ! j)"
        by auto
      with l(3) show ?thesis by simp
    qed
    from mem maxi show ?thesis
      unfolding vs' by (intro bexI[of _ ?l]) (simp_all add: g' l(4))
  qed
  have prod: "productionVersionId ?g' = None \<and> versions ?g' = remaining k (versions g)"
    if "status (versions g ! k) = Production"
    using that by (simp add: g' deleteVersion_group_not_Current)
  from at(1) ids cur prod show ?thesis by blast
qed

theorem deleteVersion_promotes_witness:
  "json_storage store_ex
   \<and> getAllGroups store_ex = [] @ restore_ids g1_ex # [restore_ids g2_ex]
   \<and> ''v2'' \<notin> set (all_version_ids [])
   \<and> findIndex (\<lambda>v. id_v v = ''v2'') (versions (restore_ids g1_ex)) = Some 1
   \<and> length (versions (restore_ids g1_ex)) > 1
   \<and> setItem_ok env_ex
   \<and> status (versions (restore_ids g1_ex) ! 1) = Current
   \<and> fst (deleteVersion env_ex ''v2'' store_ex)
   \<and> (\<exists>latest \<in> set (versions (getAllGroups (snd (deleteVersion env_ex ''v2'' store_ex)) ! length ([] :: PromptGroup list))).
         status latest = Current
         \<and> currentVersionId (getAllGroups (snd (deleteVersion env_ex ''v2'' store_ex)) ! length ([] :: PromptGroup list)) = id_v latest
         \<and> (\<forall>v \<in> set (versions (getAllGroups (snd (deleteVersion env_ex ''v2'' store_ex)) ! length ([] :: PromptGroup list))).
               \<not> js_less (version latest) (version v)))
   \<and> map_option (\<lambda>g. (map id_v (versions g), map status (versions g), currentVersionId g))
        (getGroupById (snd (deleteVersion env_ex ''v2'' store_ex)) ''g1'')
       = Some ([''v1''], [Current], ''v1'')
   \<and> json_storage store_prod
   \<and> getAllGroups store_prod = [] @ restore_ids g3_ex # []
   \<and> findIndex (\<lambda>v. id_v v = ''p1'') (versions (restore_ids g3_ex)) = Some 0
   \<and> length (versions (restore_ids g3_ex)) > 1
   \<and> status (versions (restore_ids g3_ex) ! 0) = Production
   \<and> productionVersionId (restore_ids g3_ex) = Some ''p1''
   \<and> productionVersionId (getAllGroups (snd (deleteVersion env_ex ''p1'' store_prod)) ! length ([] :: PromptGroup list)) = None
   \<and> versions (getAllGroups (snd (deleteVersion env_ex ''p1'' store_prod)) ! length ([] :: PromptGroup list))
       = remaining 0 (versions (restore_ids g3_ex))"
proof -
  have p2: "getAllGroups store_prod = [] @ restore_ids g3_ex # []"
    by (simp add: store_prod_def getAllGroups_def localStorage_get_def)
  have p3: "''p1'' \<notin> set (all_version_ids [])" by (simp add: all_version_ids_def)
  have p4: "findIndex (\<lambda>v. id_v v = ''p1'') (versions (restore_ids g3_ex)) = Some 0"
    by (simp add: g3_ex_def ex_defs)
  have p5: "length (versions (restore_ids g3_ex)) > 1" by (simp add: g3_ex_def ex_defs)
  have p7: "status (versions (restore_ids g3_ex) ! 0) = Production" by (simp add: g3_ex_def ex_defs)
  have p8: "productionVersionId (restore_ids g3_ex) = Some ''p1''" by (simp add: g3_ex_def ex_defs)
  have h2: "getAllGroups store_ex = [] @ restore_ids g1_ex # [restore_ids g2_ex]"
    by (simp add: getAllGroups_store_ex)
  have h3: "''v2'' \<notin> set (all_version_ids [])" by (simp add: all_version_ids_def)
  have h4: "findIndex (\<lambda>v. id_v v = ''v2'') (versions (restore_ids g1_ex)) = Some 1"
    by (simp add: ex_defs)
  have h5: "length (versions (restore_ids g1_ex)) > 1" by (simp add: ex_defs)
  have h6: "setItem_ok env_ex" by (simp add: env_ex_def)
  have h7: "status (versions (restore_ids g1_ex) ! 1) = Current" by (simp add: ex_defs)
  have ev: "map_option (\<lambda>g. (map id_v (versions g), map status (versions g), currentVersionId g))
        (getGroupById (snd (deleteVersion env_ex ''v2'' store_ex)) ''g1'')
       = Some ([''v1''], [Current], ''v1'')"
    by code_simp
  from deleteVersion_promotes[OF json_storage_store_ex h2 h3 h4 h5 h6]
    deleteVersion_promotes[OF json_storage_store_prod p2 p3 p4 p5 h6]
    json_storage_store_ex h2 h3 h4 h5 h6 h7 ev json_storage_store_prod p2 p4 p5 p7 p8
  show ?thesis by blast
qed

subsection \<open>At most one current, at most one production\<close>

lemma count_status_count_in: "count_status s g = count_in s (map status (versions g))"
  by (simp add: count_status_def count_in_def filter_map comp_def)

lemma statuses_reload [simp]: "map status (versions (reload g)) = map status (versions g)"
  by (simp add: comp_def)

lemma count_status_reload [simp]: "count_status s (reload g) = count_status s g"
  unfolding count_status_count_in statuses_reload ..

lemma count_status_restore_ids [simp]: "count_status s (restore_ids g) = count_status s g"
  by (simp add: count_status_def)

lemma statuses_setVersionStatus_group:
  assumes "k < length (versions g)"
  shows "map status (versions (setVersionStatus_group t vid s k g)) =
           (if s = Draft then map status (versions g) else demoted s (map status (versions g)))[k := s]"
proof (rule nth_equalityI)
  show "length (map status (versions (setVersionStatus_group t vid s k g))) =
        length ((if s = Draft then map status (versions g) else demoted s (map status (versions g)))[k := s])"
    by (simp add: demoted_def)
next
  fix i assume "i < length (map status (versions (setVersionStatus_group t vid s k g)))"
  then have i: "i < length (versions g)" by simp
  show "map status (versions (setVersionStatus_group t vid s k g)) ! i =
        (if s = Draft then map status (versions g) else demoted s (map status (versions g)))[k := s] ! i"
    using i assms
    by (cases s; cases "i = k")
       (simp_all add: setVersionStatus_group_def Let_def nth_clear_status demoted_def nth_list_update)
qed

lemma count_in_single:
  assumes "k < length xs" "xs ! k = s" "\<forall>i<length xs. i \<noteq> k \<longrightarrow> xs ! i \<noteq> s"
  shows "count_in s xs = 1"
proof -
  have xs: "xs = take k xs @ xs ! k # drop (Suc k) xs"
    using assms(1) by (simp add: id_take_nth_drop)
  have "x \<noteq> s" if "x \<in> set (take k xs)" for x
  proof -
    from that obtain i where "i < length (take k xs)" "take k xs ! i = x"
      by (auto simp: in_set_conv_nth)
    then have i: "i < length xs" "i \<noteq> k" "xs ! i = x" using assms(1) by auto
    from assms(3) i(1,2) have "xs ! i \<noteq> s" by blast
    with i(3) show ?thesis by simp
  qed
  then have "filter (\<lambda>x. x = s) (take k xs) = []"
    by (simp add: filter_empty_conv)
  moreover have "x \<noteq> s" if "x \<in> set (drop (Suc k) xs)" for x
  proof -
    from that obtain i where "i < length (drop (Suc k) xs)" "drop (Suc k) xs ! i = x"
      by (auto simp: in_set_conv_nth)
    then have i: "Suc k + i < length xs" "Suc k + i \<noteq> k" "xs ! (Suc k + i) = x" using assms(1) by auto
    from assms(3) i(1,2) have "xs ! (Suc k + i) \<noteq> s" by blast
    with i(3) show ?thesis by simp
  qed
  then have "filter (\<lambda>x. x = s) (drop (Suc k) xs) = []"
    by (simp add: filter_empty_conv)
  ultimately have "length (filter (\<lambda>x. x = s) (take k xs @ xs ! k # drop (Suc k) xs)) = 1"
    using assms(2) by simp
  with xs show ?thesis by (simp add: count_in_def)
qed

lemma count_in_mono:
  assumes "length ys = length xs" "\<forall>i<length xs. ys ! i = s \<longrightarrow> xs ! i = s"
  shows "count_in s ys \<le> count_in s xs"
  using assms
proof (induction ys xs rule: list_induct2)
  case Nil
  then show ?case by (simp add: count_in_def)
next
  case (Cons y ys x xs)
  from Cons.prems have "\<forall>i<length xs. ys ! i = s \<longrightarrow> xs ! i = s" by fastforce
  with Cons.IH have "count_in s ys \<le> count_in s xs" by simp
  moreover from Cons.prems have "y = s \<longrightarrow> x = s" by fastforce
  ultimately show ?case by (auto simp: count_in_def)
qed

lemma count_in_set_status:
  assumes "k < length sts" "s \<noteq> Draft"
  shows "count_in s ((demoted s sts)[k := s]) = 1"
  using assms by (intro count_in_single[where k = k]) (auto simp: demoted_def)

lemma count_in_other_status:
  assumes "s \<noteq> Draft" "s \<noteq> s'"
  shows "count_in s ((if s' = Draft then sts else demoted s' sts)[k := s']) \<le> count_in s sts"
proof (rule count_in_mono)
  show "length ((if s' = Draft then sts else demoted s' sts)[k := s']) = length sts"
    by (simp add: demoted_def)
  show "\<forall>i<length sts. (if s' = Draft then sts else demoted s' sts)[k := s'] ! i = s \<longrightarrow> sts ! i = s"
  proof (intro allI impI)
    fix i assume i: "i < length sts"
      and e: "(if s' = Draft then sts else demoted s' sts)[k := s'] ! i = s"
    show "sts ! i = s"
    proof (cases "i = k")
      case True
      with i e assms show ?thesis by (simp add: demoted_def split: if_splits)
    next
      case False
      with i e assms show ?thesis by (simp add: demoted_def split: if_splits)
    qed
  qed
qed

lemma count_status_setVersionStatus_group:
  assumes "k < length (versions g)" "s \<noteq> Draft"
  shows "count_status s (setVersionStatus_group t vid s' k g) \<le> max 1 (count_status s g)"
    and "s' = s \<Longrightarrow> count_status s (setVersionStatus_group t vid s' k g) = 1"
proof -
  show "s' = s \<Longrightarrow> count_status s (setVersionStatus_group t vid s' k g) = 1"
    using assms by (simp add: count_status_count_in statuses_setVersionStatus_group count_in_set_status)
  then show "count_status s (setVersionStatus_group t vid s' k g) \<le> max 1 (count_status s g)"
    using assms count_in_other_status[of s s' "map status (versions g)" k]
    by (cases "s' = s") (simp_all add: count_status_count_in statuses_setVersionStatus_group)
qed

lemma setVersionStatus_step_count:
  assumes "i < length (getAllGroups st)" "s \<noteq> Draft"
  shows "length (getAllGroups (snd (setVersionStatus e vid s' st))) = length (getAllGroups st)"
    and "count_status s (getAllGroups (snd (setVersionStatus e vid s' st)) ! i)
           \<le> max 1 (count_status s (getAllGroups st ! i))"
    and "s' = s \<Longrightarrow> count_status s (getAllGroups st ! i) = 1 \<Longrightarrow>
         count_status s (getAllGroups (snd (setVersionStatus e vid s' st)) ! i) = 1"
proof -
  define gs where "gs = getAllGroups st"
  define gs' where "gs' = getAllGroups (snd (setVersionStatus e vid s' st))"
  from assms(1) have i: "i < length gs" by (simp add: gs_def)
  have "length gs' = length gs
      \<and> count_status s (gs' ! i) \<le> max 1 (count_status s (gs ! i))
      \<and> (s' = s \<longrightarrow> count_status s (gs ! i) = 1 \<longrightarrow> count_status s (gs' ! i) = 1)"
  proof (cases "setVersionStatus_loop (now e) vid s' gs")
    case None
    then have "gs' = gs" by (simp add: gs'_def gs_def setVersionStatus_def)
    then show ?thesis by simp
  next
    case (Some gs1)
    from Some scan_loop_Some[of "\<lambda>k g. Some (setVersionStatus_group (now e) vid s' k g)" vid gs gs1]
    obtain j k where
      h: "j < length gs" "k < length (versions (gs ! j))"
         "gs1 = gs[j := setVersionStatus_group (now e) vid s' k (gs ! j)]"
      by (auto simp: setVersionStatus_loop_scan)
    show ?thesis
    proof (cases "setItem_ok e")
      case False
      with Some have "gs' = gs"
        by (simp add: gs'_def gs_def setVersionStatus_def getAllGroups_after_set)
      then show ?thesis by simp
    next
      case True
      with Some have gs': "gs' = map reload gs1"
        by (simp add: gs'_def gs_def setVersionStatus_def getAllGroups_after_set)
      show ?thesis
      proof (cases "i = j")
        case False
        with i h(3) show ?thesis by (simp add: gs')
      next
        case True
        with i h(3) have "count_status s (gs' ! i)
            = count_status s (setVersionStatus_group (now e) vid s' k (gs ! j))"
          by (simp add: gs')
        with count_status_setVersionStatus_group[OF h(2) assms(2), where t = "now e" and vid = vid and s' = s'] True h(3)
        show ?thesis by (auto simp: gs')
      qed
    qed
  qed
  then show "length (getAllGroups (snd (setVersionStatus e vid s' st))) = length (getAllGroups st)"
    and "count_status s (getAllGroups (snd (setVersionStatus e vid s' st)) ! i)
           \<le> max 1 (count_status s (getAllGroups st ! i))"
    and "s' = s \<Longrightarrow> count_status s (getAllGroups st ! i) = 1 \<Longrightarrow>
         count_status s (getAllGroups (snd (setVersionStatus e vid s' st)) ! i) = 1"
    unfolding gs_def gs'_def by blast+
qed

lemma length_setVersionStatus:
  "length (getAllGroups (snd (setVersionStatus e vid s' st))) = length (getAllGroups st)"
proof (cases "setVersionStatus_loop (now e) vid s' (getAllGroups st)")
  case None
  then show ?thesis by (simp add: setVersionStatus_def)
next
  case (Some gs1)
  from Some scan_loop_Some[of "\<lambda>k g. Some (setVersionStatus_group (now e) vid s' k g)" vid "getAllGroups st" gs1]
  have "length gs1 = length (getAllGroups st)"
    by (auto simp: setVersionStatus_loop_scan)
  with Some show ?thesis by (simp add: setVersionStatus_def getAllGroups_after_set)
qed

lemma setVersionStatus_calls_at_most_one:
  assumes "s \<noteq> Draft" "i < length (getAllGroups st)" "count_status s (getAllGroups st ! i) \<le> 1"
  shows "length (getAllGroups (setVersionStatus_calls calls st)) = length (getAllGroups st)
       \<and> count_status s (getAllGroups (setVersionStatus_calls calls st) ! i) \<le> 1"
  using assms(2,3)
proof (induction calls arbitrary: st)
  case Nil
  then show ?case by simp
next
  case (Cons c calls)
  obtain e vid s' where c: "c = (e, vid, s')" by (cases c) auto
  let ?st1 = "snd (setVersionStatus e vid s' st)"
  have l: "length (getAllGroups ?st1) = length (getAllGroups st)"
    by (rule length_setVersionStatus)
  from setVersionStatus_step_count(2)[OF Cons.prems(1) assms(1), of e vid s'] Cons.prems(2)
  have "count_status s (getAllGroups ?st1 ! i) \<le> 1" by simp
  with Cons.IH[of ?st1] l Cons.prems(1) show ?case by (simp add: c)
qed

lemma setVersionStatus_calls_exactly_one:
  assumes "s \<noteq> Draft" "list_all (\<lambda>c. snd (snd c) = s) calls"
    "i < length (getAllGroups st)" "count_status s (getAllGroups st ! i) = 1"
  shows "count_status s (getAllGroups (setVersionStatus_calls calls st) ! i) = 1"
  using assms(2,3,4)
proof (induction calls arbitrary: st)
  case Nil
  then show ?case by simp
next
  case (Cons c calls)
  obtain e vid s' where c: "c = (e, vid, s')" by (cases c) auto
  with Cons.prems(1) have s': "s' = s" by simp
  let ?st1 = "snd (setVersionStatus e vid s' st)"
  have l: "length (getAllGroups ?st1) = length (getAllGroups st)"
    by (rule length_setVersionStatus)
  from setVersionStatus_step_count(3)[OF Cons.prems(2) assms(1) s' Cons.prems(3), of e vid]
  have "count_status s (getAllGroups ?st1 ! i) = 1" .
  with Cons.IH[of ?st1] l Cons.prems show ?case by (simp add: c)
qed

lemma addVersion_found:
  assumes "findIndex (\<lambda>g. id_g g = gid) (getAllGroups st) = Some j"
  shows "addVersion e gid c opts st =
           (Some (newVersion_of e gid c opts (getAllGroups st ! j)),
            snd (localStorage_set (setItem_ok e)
                   ((getAllGroups st)[j := with_newVersion (now e)
                        (newVersion_of e gid c opts (getAllGroups st ! j)) (getAllGroups st ! j)])
                   st))"
  using assms
  by (simp add: addVersion_def Let_def newVersion_of_def with_newVersion_def)

lemma addVersion_view:
  assumes "findIndex (\<lambda>g. id_g g = gid) (getAllGroups st) = Some j" "setItem_ok e"
  shows "getAllGroups (snd (addVersion e gid c opts st)) ! j =
           reload (with_newVersion (now e) (newVersion_of e gid c opts (getAllGroups st ! j))
                     (getAllGroups st ! j))"
proof -
  from findIndex_Some[OF assms(1)] have "j < length (getAllGroups st)" by simp
  then show ?thesis
    by (simp add: addVersion_found[OF assms(1)] getAllGroups_after_set assms(2))
qed

lemma count_in_demoted: "s \<noteq> Draft \<Longrightarrow> count_in s (demoted s sts) = 0"
  by (auto simp: count_in_def demoted_def filter_empty_conv)

lemma addVersion_current:
  assumes "findIndex (\<lambda>g. id_g g = gid) (getAllGroups st) = Some j"
    "opt_status opts = Some New_current" "setItem_ok e"
  shows "map status (versions (getAllGroups (snd (addVersion e gid c opts st)) ! j))
           = demoted Current (map status (versions (getAllGroups st ! j))) @ [Current]"
    and "count_status Current (getAllGroups (snd (addVersion e gid c opts st)) ! j) = 1"
    and "currentVersionId (getAllGroups (snd (addVersion e gid c opts st)) ! j) = generateId e 0"
    and "map_option id_v (fst (addVersion e gid c opts st)) = Some (generateId e 0)"
    and "map_option status (fst (addVersion e gid c opts st)) = Some Current"
proof -
  let ?g = "getAllGroups st ! j"
  let ?nv = "newVersion_of e gid c opts ?g"
  have nv: "status ?nv = Current" "id_v ?nv = generateId e 0"
    using assms(2) by (simp_all add: newVersion_of_def)
  have st: "map status (versions (with_newVersion (now e) ?nv ?g))
              = demoted Current (map status (versions ?g)) @ [Current]"
    by (simp add: with_newVersion_def Let_def nv demoted_def comp_def if_distrib[of status] cong: if_cong)
  show a: "map status (versions (getAllGroups (snd (addVersion e gid c opts st)) ! j))
           = demoted Current (map status (versions (getAllGroups st ! j))) @ [Current]"
    unfolding addVersion_view[OF assms(1,3)] statuses_reload by (rule st)
  have "count_in Current (demoted Current (map status (versions ?g)) @ [Current]) = 1"
    using count_in_demoted[of Current "map status (versions ?g)"] by (simp add: count_in_def)
  then show "count_status Current (getAllGroups (snd (addVersion e gid c opts st)) ! j) = 1"
    unfolding count_status_count_in a .
  show "currentVersionId (getAllGroups (snd (addVersion e gid c opts st)) ! j) = generateId e 0"
    by (simp add: addVersion_view[OF assms(1,3)] with_newVersion_def Let_def nv)
  show "map_option id_v (fst (addVersion e gid c opts st)) = Some (generateId e 0)"
    and "map_option status (fst (addVersion e gid c opts st)) = Some Current"
    by (simp_all add: addVersion_found[OF assms(1)] nv)
qed

lemma setVersionStatus_at_raw:
  assumes "getAllGroups st = pre @ g # post" "vid \<notin> set (all_version_ids pre)"
    "findIndex (\<lambda>v. id_v v = vid) (versions g) = Some k"
  shows "fst (setVersionStatus e vid s st)"
    and "setItem_ok e \<Longrightarrow> getAllGroups (snd (setVersionStatus e vid s st)) ! length pre
           = reload (setVersionStatus_group (now e) vid s k g)"
proof -
  have l: "setVersionStatus_loop (now e) vid s (getAllGroups st)
             = Some (pre @ setVersionStatus_group (now e) vid s k g # post)"
    by (simp add: setVersionStatus_loop_scan scan_loop_at[OF assms])
  then show "fst (setVersionStatus e vid s st)" by (simp add: setVersionStatus_def)
  from l show "setItem_ok e \<Longrightarrow> getAllGroups (snd (setVersionStatus e vid s st)) ! length pre
           = reload (setVersionStatus_group (now e) vid s k g)"
    by (simp add: setVersionStatus_def getAllGroups_after_set nth_append)
qed

lemma setVersionStatus_group_pointer:
  "currentVersionId (setVersionStatus_group t vid Current k g) = vid"
  "productionVersionId (setVersionStatus_group t vid Production k g) = Some vid"
  by (simp_all add: setVersionStatus_group_def Let_def)

lemma setVersionStatus_effect:
  assumes "s \<noteq> Draft" "getAllGroups st = pre @ g # post" "vid \<notin> set (all_version_ids pre)"
    "findIndex (\<lambda>v. id_v v = vid) (versions g) = Some k" "setItem_ok e"
  shows "fst (setVersionStatus e vid s st)"
    and "map status (versions (getAllGroups (snd (setVersionStatus e vid s st)) ! length pre))
           = (demoted s (map status (versions g)))[k := s]"
    and "count_status s (getAllGroups (snd (setVersionStatus e vid s st)) ! length pre) = 1"
    and "s = Current \<Longrightarrow>
           currentVersionId (getAllGroups (snd (setVersionStatus e vid s st)) ! length pre) = vid"
    and "s = Production \<Longrightarrow>
           productionVersionId (getAllGroups (snd (setVersionStatus e vid s st)) ! length pre) = Some vid"
proof -
  from findIndex_Some[OF assms(4)] have k: "k < length (versions g)" by simp
  note at = setVersionStatus_at_raw[OF assms(2,3,4), of e s]
  show "fst (setVersionStatus e vid s st)" by (rule at(1))
  show "map status (versions (getAllGroups (snd (setVersionStatus e vid s st)) ! length pre))
           = (demoted s (map status (versions g)))[k := s]"
    using assms(1) by (simp add: at(2)[OF assms(5)] statuses_setVersionStatus_group[OF k] del: reload_fields)
  show "count_status s (getAllGroups (snd (setVersionStatus e vid s st)) ! length pre) = 1"
    by (simp add: at(2)[OF assms(5)] count_status_setVersionStatus_group(2)[OF k assms(1)])
  show "s = Current \<Longrightarrow>
           currentVersionId (getAllGroups (snd (setVersionStatus e vid s st)) ! length pre) = vid"
    unfolding at(2)[OF assms(5)] by (simp add: setVersionStatus_group_pointer)
  show "s = Production \<Longrightarrow>
           productionVersionId (getAllGroups (snd (setVersionStatus e vid s st)) ! length pre) = Some vid"
    unfolding at(2)[OF assms(5)] by (simp add: setVersionStatus_group_pointer)
qed

text \<open>
  C1. For a status \<open>s\<close> that is current or production, and the group at any index \<open>i\<close>:
  \<^item> after any sequence of \<^verbatim>\<open>setVersionStatus\<close> calls (any ids, any statuses, writes
    succeeding or not) the store has as many groups, and the group has at most one
    version of status \<open>s\<close> if it had at most one before;
  \<^item> after any sequence of \<^verbatim>\<open>setVersionStatus(..., s)\<close> calls the group has exactly one
    version of status \<open>s\<close> if it had exactly one before;
  \<^item> one call \<^verbatim>\<open>setVersionStatus(versionId, s)\<close> whose write succeeds, with \<open>g\<close> the first
    group holding the id, at index \<open>k\<close> of its versions: it returns \<^verbatim>\<open>true\<close>, the statuses
    of \<open>g\<close> are the former ones with every \<open>s\<close> turned into draft and then \<open>s\<close> at \<open>k\<close>,
    exactly one version has status \<open>s\<close>, and \<^verbatim>\<open>currentVersionId\<close> (for current) or
    \<^verbatim>\<open>productionVersionId\<close> (for production) is \<open>versionId\<close>;
  \<^item> \<^verbatim>\<open>addVersion\<close> with \<^verbatim>\<open>status: 'current'\<close> on a group that is found, the write
    succeeding: the new version is current and has the generated id, the statuses of
    the group are the former ones with every current turned into draft, then current
    for the new version; exactly one version is current and \<^verbatim>\<open>currentVersionId\<close> is the
    new id.
\<close>

theorem single_current_single_production:
  "(s \<noteq> Draft \<and> i < length (getAllGroups st) \<and> count_status s (getAllGroups st ! i) \<le> 1
      \<longrightarrow> length (getAllGroups (setVersionStatus_calls calls st)) = length (getAllGroups st)
          \<and> count_status s (getAllGroups (setVersionStatus_calls calls st) ! i) \<le> 1)
   \<and> (s \<noteq> Draft \<and> list_all (\<lambda>c. snd (snd c) = s) calls
        \<and> i < length (getAllGroups st) \<and> count_status s (getAllGroups st ! i) = 1
      \<longrightarrow> count_status s (getAllGroups (setVersionStatus_calls calls st) ! i) = 1)
   \<and> (s \<noteq> Draft \<and> getAllGroups st = pre @ g # post \<and> versionId \<notin> set (all_version_ids pre)
        \<and> findIndex (\<lambda>v. id_v v = versionId) (versions g) = Some k \<and> setItem_ok e
      \<longrightarrow> fst (setVersionStatus e versionId s st)
          \<and> map status (versions (getAllGroups (snd (setVersionStatus e versionId s st)) ! length pre))
              = (demoted s (map status (versions g)))[k := s]
          \<and> count_status s (getAllGroups (snd (setVersionStatus e versionId s st)) ! length pre) = 1
          \<and> (s = Current \<longrightarrow>
                currentVersionId (getAllGroups (snd (setVersionStatus e versionId s st)) ! length pre)
                  = versionId)
          \<and> (s = Production \<longrightarrow>
                productionVersionId (getAllGroups (snd (setVersionStatus e versionId s st)) ! length pre)
                  = Some versionId))
   \<and> (findIndex (\<lambda>g. id_g g = groupId) (getAllGroups st) = Some j
        \<and> opt_status options = Some New_current \<and> setItem_ok e
      \<longrightarrow> map_option status (fst (addVersion e groupId c options st)) = Some Current
          \<and> map_option id_v (fst (addVersion e groupId c options st)) = Some (generateId e 0)
          \<and> map status (versions (getAllGroups (snd (addVersion e groupId c options st)) ! j))
              = demoted Current (map status (versions (getAllGroups st ! j))) @ [Current]
          \<and> count_status Current (getAllGroups (snd (addVersion e groupId c options st)) ! j) = 1
          \<and> currentVersionId (getAllGroups (snd (addVersion e groupId c options st)) ! j)
              = generateId e 0)"
proof (intro conjI impI)
  assume "s \<noteq> Draft \<and> i < length (getAllGroups st) \<and> count_status s (getAllGroups st ! i) \<le> 1"
  then have a: "length (getAllGroups (setVersionStatus_calls calls st)) = length (getAllGroups st)
       \<and> count_status s (getAllGroups (setVersionStatus_calls calls st) ! i) \<le> 1"
    using setVersionStatus_calls_at_most_one by blast
  from a show "length (getAllGroups (setVersionStatus_calls calls st)) = length (getAllGroups st)" ..
  from a show "count_status s (getAllGroups (setVersionStatus_calls calls st) ! i) \<le> 1" ..
next
  assume "s \<noteq> Draft \<and> list_all (\<lambda>c. snd (snd c) = s) calls
        \<and> i < length (getAllGroups st) \<and> count_status s (getAllGroups st ! i) = 1"
  then show "count_status s (getAllGroups (setVersionStatus_calls calls st) ! i) = 1"
    using setVersionStatus_calls_exactly_one by blast
next
  assume h: "s \<noteq> Draft \<and> getAllGroups st = pre @ g # post \<and> versionId \<notin> set (all_version_ids pre)
        \<and> findIndex (\<lambda>v. id_v v = versionId) (versions g) = Some k \<and> setItem_ok e"
  then have h': "s \<noteq> Draft" "getAllGroups st = pre @ g # post" "versionId \<notin> set (all_version_ids pre)"
    "findIndex (\<lambda>v. id_v v = versionId) (versions g) = Some k" "setItem_ok e"
    by blast+
  note eff = setVersionStatus_effect[OF h']
  show "fst (setVersionStatus e versionId s st)" by (rule eff(1))
  show "map status (versions (getAllGroups (snd (setVersionStatus e versionId s st)) ! length pre))
              = (demoted s (map status (versions g)))[k := s]" by (rule eff(2))
  show "count_status s (getAllGroups (snd (setVersionStatus e versionId s st)) ! length pre) = 1"
    by (rule eff(3))
  show "currentVersionId (getAllGroups (snd (setVersionStatus e versionId s st)) ! length pre) = versionId"
    if "s = Current" using that by (rule eff(4))
  show "productionVersionId (getAllGroups (snd (setVersionStatus e versionId s st)) ! length pre)
          = Some versionId"
    if "s = Production" using that by (rule eff(5))
next
  assume h: "findIndex (\<lambda>g. id_g g = groupId) (getAllGroups st) = Some j
        \<and> opt_status options = Some New_current \<and> setItem_ok e"
  then have h': "findIndex (\<lambda>g. id_g g = groupId) (getAllGroups st) = Some j"
    "opt_status options = Some New_current" "setItem_ok e"
    by blast+
  note eff = addVersion_current[OF h']
  show "map_option status (fst (addVersion e groupId c options st)) = Some Current" by (rule eff(5))
  show "map_option id_v (fst (addVersion e groupId c options st)) = Some (generateId e 0)" by (rule eff(4))
  show "map status (versions (getAllGroups (snd (addVersion e groupId c options st)) ! j))
              = demoted Current (map status (versions (getAllGroups st ! j))) @ [Current]" by (rule eff(1))
  show "count_status Current (getAllGroups (snd (addVersion e groupId c options st)) ! j) = 1" by (rule eff(2))
  show "currentVersionId (getAllGroups (snd (addVersion e groupId c options st)) ! j) = generateId e 0"
    by (rule eff(3))
qed

theorem single_current_single_production_witness:
  "Current \<noteq> Draft \<and> Production \<noteq> Draft
   \<and> 0 < length (getAllGroups store_ex)
   \<and> count_status Current (getAllGroups store_ex ! 0) \<le> 1
   \<and> count_status Current (getAllGroups store_ex ! 0) = 1
   \<and> count_status Current (getAllGroups (setVersionStatus_calls
        [(env_ex, ''v1'', Current), (env_ex, ''v2'', Production), (env_ex, ''v1'', Draft)] store_ex) ! 0) \<le> 1
   \<and> list_all (\<lambda>c. snd (snd c) = Current) [(env_ex, ''v1'', Current), (env_ex, ''w1'', Current), (env_ex, ''v2'', Current)]
   \<and> count_status Current (getAllGroups (setVersionStatus_calls
        [(env_ex, ''v1'', Current), (env_ex, ''w1'', Current), (env_ex, ''v2'', Current)] store_ex) ! 0) = 1
   \<and> getAllGroups store_ex = [] @ restore_ids g1_ex # [restore_ids g2_ex]
   \<and> findIndex (\<lambda>v. id_v v = ''v1'') (versions (restore_ids g1_ex)) = Some 0
   \<and> findIndex (\<lambda>v. id_v v = ''v2'') (versions (restore_ids g1_ex)) = Some 1
   \<and> setItem_ok env_ex
   \<and> fst (setVersionStatus env_ex ''v1'' Current store_ex)
   \<and> map status (versions (getAllGroups (snd (setVersionStatus env_ex ''v1'' Current store_ex)) ! length ([] :: PromptGroup list)))
       = (demoted Current (map status (versions (restore_ids g1_ex))))[0 := Current]
   \<and> (demoted Current (map status (versions (restore_ids g1_ex))))[0 := Current] = [Current, Draft]
   \<and> currentVersionId (getAllGroups (snd (setVersionStatus env_ex ''v1'' Current store_ex)) ! length ([] :: PromptGroup list)) = ''v1''
   \<and> productionVersionId (getAllGroups (snd (setVersionStatus env_ex ''v2'' Production store_ex)) ! length ([] :: PromptGroup list)) = Some ''v2''
   \<and> count_status Production (getAllGroups (snd (setVersionStatus env_ex ''v2'' Production store_ex)) ! length ([] :: PromptGroup list)) = 1
   \<and> findIndex (\<lambda>g. id_g g = ''g1'') (getAllGroups store_ex) = Some 0
   \<and> opt_status opts_current = Some New_current
   \<and> map status (versions (getAllGroups (snd (addVersion env_ex ''g1'' ''c'' opts_current store_ex)) ! 0))
       = demoted Current (map status (versions (getAllGroups store_ex ! 0))) @ [Current]
   \<and> demoted Current (map status (versions (getAllGroups store_ex ! 0))) @ [Current] = [Draft, Draft, Current]
   \<and> count_status Current (getAllGroups (snd (addVersion env_ex ''g1'' ''c'' opts_current store_ex)) ! 0) = 1
   \<and> currentVersionId (getAllGroups (snd (addVersion env_ex ''g1'' ''c'' opts_current store_ex)) ! 0) = generateId env_ex 0"
proof -
  have d: "Current \<noteq> Draft" "Production \<noteq> Draft" by simp_all
  have i: "0 < length (getAllGroups store_ex)" by (simp add: getAllGroups_store_ex)
  have c1: "count_status Current (getAllGroups store_ex ! 0) = 1"
    by (simp add: getAllGroups_store_ex count_status_def ex_defs)
  then have c0: "count_status Current (getAllGroups store_ex ! 0) \<le> 1" by simp
  have la: "list_all (\<lambda>c. snd (snd c) = Current) [(env_ex, ''v1'', Current), (env_ex, ''w1'', Current), (env_ex, ''v2'', Current)]"
    by simp
  have h2: "getAllGroups store_ex = [] @ restore_ids g1_ex # [restore_ids g2_ex]"
    by (simp add: getAllGroups_store_ex)
  have h3: "x \<notin> set (all_version_ids [])" for x by (simp add: all_version_ids_def)
  have k0: "findIndex (\<lambda>v. id_v v = ''v1'') (versions (restore_ids g1_ex)) = Some 0"
    by (simp add: ex_defs)
  have k1: "findIndex (\<lambda>v. id_v v = ''v2'') (versions (restore_ids g1_ex)) = Some 1"
    by (simp add: ex_defs)
  have ok: "setItem_ok env_ex" by (simp add: env_ex_def)
  have j: "findIndex (\<lambda>g. id_g g = ''g1'') (getAllGroups store_ex) = Some 0"
    by (simp add: getAllGroups_store_ex ex_defs)
  have o: "opt_status opts_current = Some New_current" by (simp add: opts_current_def)
  have ev1: "(demoted Current (map status (versions (restore_ids g1_ex))))[0 := Current] = [Current, Draft]"
    by (simp add: demoted_def ex_defs)
  have ev2: "demoted Current (map status (versions (getAllGroups store_ex ! 0))) @ [Current] = [Draft, Draft, Current]"
    by (simp add: getAllGroups_store_ex demoted_def ex_defs)
  note t1 = single_current_single_production[of Current 0 store_ex
      "[(env_ex, ''v1'', Current), (env_ex, ''v2'', Production), (env_ex, ''v1'', Draft)]"
      "[]" "restore_ids g1_ex" "[restore_ids g2_ex]" "''v1''" 0 env_ex "''g1''" 0 opts_current "''c''"]
  note t2 = single_current_single_production[of Current 0 store_ex
      "[(env_ex, ''v1'', Current), (env_ex, ''w1'', Current), (env_ex, ''v2'', Current)]"
      "[]" "restore_ids g1_ex" "[restore_ids g2_ex]" "''v2''" 1 env_ex "''g1''" 0 opts_current "''c''"]
  note t3 = single_current_single_production[of Production 0 store_ex "[]"
      "[]" "restore_ids g1_ex" "[restore_ids g2_ex]" "''v2''" 1 env_ex "''g1''" 0 opts_current "''c''"]
  from t1 t2 t3 d i c0 c1 la h2 h3 k0 k1 ok j o ev1 ev2 show ?thesis by blast
qed

subsection \<open>Creating a group\<close>

lemma initial_version_reload: "initial_version g \<Longrightarrow> initial_version (reload g)"
  by (auto simp: initial_version_def JSON_version_def split: list.splits)

lemma initial_version_convert:
  "initial_version (convertGroupToLocal sg
      [\<lparr>id_sv = vid, group_id = gid, name_sv = n, content_sv = c, status_sv = Current,
        created_at_sv = t\<rparr>])"
  by (simp add: initial_version_def convertGroupToLocal_def Let_def)

lemma createGroup_initial:
  "createGroup e n c d False = Some g \<Longrightarrow> initial_version g"
  by (auto simp: createGroup_def Let_def initial_version_convert split: option.splits prod.splits)

lemma createPromptGroup_result: "initial_version (fst (createPromptGroup e n c d st))"
proof (cases "if supabaseConfigured e then createGroup e n c d False else None")
  case None
  then show ?thesis
    by (simp add: createPromptGroup_def Let_def initial_version_def)
next
  case (Some g)
  then have "createGroup e n c d False = Some g" by (simp split: if_splits)
  from createGroup_initial[OF this] Some show ?thesis
    by (simp add: createPromptGroup_def)
qed

lemma createPromptGroup_failed_write:
  "\<not> setItem_ok e \<Longrightarrow> snd (createPromptGroup e n c d st) = st"
  by (simp add: createPromptGroup_def Let_def localStorage_set_def split: option.splits)

lemma find_append_fresh:
  "\<forall>x\<in>set xs. \<not> P x \<Longrightarrow> P y \<Longrightarrow> find P (xs @ y # ys) = Some y"
  by (induction xs) auto

lemma createPromptGroup_stored:
  assumes "setItem_ok e" "generateId e 0 \<notin> set (map id_g (getAllGroups st))"
  shows "getGroupById (snd (createPromptGroup e n c d st)) (id_g (fst (createPromptGroup e n c d st)))
           = Some (reload (fst (createPromptGroup e n c d st)))"
proof (cases "if supabaseConfigured e then createGroup e n c d False else None")
  case None
  let ?grp = "fst (createPromptGroup e n c d st)"
  from None have id: "id_g ?grp = generateId e 0"
    by (simp add: createPromptGroup_def Let_def)
  from None assms(1) have gs: "getAllGroups (snd (createPromptGroup e n c d st))
      = map reload (getAllGroups st) @ [reload ?grp]"
    by (simp add: createPromptGroup_def Let_def getAllGroups_after_set)
  have "find (\<lambda>g. id_g g = generateId e 0) (map reload (getAllGroups st) @ reload ?grp # [])
          = Some (reload ?grp)"
  proof (rule find_append_fresh)
    show "\<forall>x\<in>set (map reload (getAllGroups st)). \<not> id_g x = generateId e 0"
      using assms(2) by (auto simp: image_iff)
    show "id_g (reload ?grp) = generateId e 0" by (simp add: id)
  qed
  then show ?thesis by (simp add: getGroupById_def gs id)
next
  case (Some g)
  with assms(1) show ?thesis
    by (simp add: createPromptGroup_def getGroupById_def getAllGroups_after_set)
qed

text \<open>
  C2. The group that \<^verbatim>\<open>createPromptGroup\<close> returns has exactly one version, current, with
  version number 1, and \<^verbatim>\<open>currentVersionId\<close> is that version's id (on the remote path and
  on the local one). The group and its version reach the cache in one write: if the
  write succeeds (and, for the local path, the generated group id is not the id of a
  stored group), \<^verbatim>\<open>getGroupById\<close> on the returned id right afterwards gives a group with
  the same single version, current, number 1; if the write fails the store is what it
  was, with neither the group nor the version in it.
\<close>

theorem createPromptGroup_atomic:
  "initial_version (fst (createPromptGroup e name' content' description' st))
   \<and> (setItem_ok e \<and> generateId e 0 \<notin> set (map id_g (getAllGroups st)) \<longrightarrow>
        (\<exists>g. getGroupById (snd (createPromptGroup e name' content' description' st))
                 (id_g (fst (createPromptGroup e name' content' description' st))) = Some g
             \<and> initial_version g
             \<and> versions g = versions (fst (createPromptGroup e name' content' description' st))))
   \<and> (\<not> setItem_ok e \<longrightarrow> snd (createPromptGroup e name' content' description' st) = st)"
proof (intro conjI impI)
  show r: "initial_version (fst (createPromptGroup e name' content' description' st))"
    by (rule createPromptGroup_result)
  show "snd (createPromptGroup e name' content' description' st) = st" if "\<not> setItem_ok e"
    using that by (rule createPromptGroup_failed_write)
  assume h: "setItem_ok e \<and> generateId e 0 \<notin> set (map id_g (getAllGroups st))"
  let ?grp = "fst (createPromptGroup e name' content' description' st)"
  from h have s: "getGroupById (snd (createPromptGroup e name' content' description' st)) (id_g ?grp)
           = Some (reload ?grp)"
    using createPromptGroup_stored by blast
  from r have v: "versions (reload ?grp) = versions ?grp"
    by (auto simp: initial_version_def JSON_version_def split: list.splits)
  from s v initial_version_reload[OF r]
  show "\<exists>g. getGroupById (snd (createPromptGroup e name' content' description' st)) (id_g ?grp) = Some g
             \<and> initial_version g \<and> versions g = versions ?grp"
    by blast
qed

theorem createPromptGroup_atomic_witness:
  "setItem_ok env_ex
   \<and> generateId env_ex 0 \<notin> set (map id_g (getAllGroups store_ex))
   \<and> initial_version (fst (createPromptGroup env_ex ''G'' ''content'' None store_ex))
   \<and> (\<exists>g. getGroupById (snd (createPromptGroup env_ex ''G'' ''content'' None store_ex))
              (id_g (fst (createPromptGroup env_ex ''G'' ''content'' None store_ex))) = Some g
          \<and> initial_version g
          \<and> versions g = versions (fst (createPromptGroup env_ex ''G'' ''content'' None store_ex)))
   \<and> map_option (\<lambda>g. (map status (versions g), map version (versions g), map id_v (versions g),
                       currentVersionId g))
        (getGroupById (snd (createPromptGroup env_ex ''G'' ''content'' None store_ex)) ''n0'')
       = Some ([Current], [Num 1], [''n1''], ''n1'')
   \<and> setItem_ok env_remote
   \<and> generateId env_remote 0 \<notin> set (map id_g (getAllGroups store_ex))
   \<and> (\<exists>g. getGroupById (snd (createPromptGroup env_remote ''G'' ''content'' None store_ex))
              (id_g (fst (createPromptGroup env_remote ''G'' ''content'' None store_ex))) = Some g
          \<and> initial_version g
          \<and> versions g = versions (fst (createPromptGroup env_remote ''G'' ''content'' None store_ex)))
   \<and> map_option (\<lambda>g. (map status (versions g), map version (versions g), map id_v (versions g),
                       currentVersionId g))
        (getGroupById (snd (createPromptGroup env_remote ''G'' ''content'' None store_ex)) ''r1'')
       = Some ([Current], [Num 1], [''rv1''], ''rv1'')
   \<and> \<not> setItem_ok env_full
   \<and> snd (createPromptGroup env_full ''G'' ''content'' None store_ex) = store_ex
   \<and> getGroupById (snd (createPromptGroup env_full ''G'' ''content'' None store_ex)) ''n0'' = None"
proof -
  have a1: "setItem_ok env_ex" by (simp add: env_ex_def)
  have a2: "generateId env_ex 0 \<notin> set (map id_g (getAllGroups store_ex))"
    by (simp add: getAllGroups_store_ex ex_defs)
  have b1: "setItem_ok env_remote" by (simp add: env_remote_def)
  have b2: "generateId env_remote 0 \<notin> set (map id_g (getAllGroups store_ex))"
    by (simp add: getAllGroups_store_ex ex_defs env_remote_def)
  have c1: "\<not> setItem_ok env_full" by (simp add: env_full_def)
  have ev1: "map_option (\<lambda>g. (map status (versions g), map version (versions g), map id_v (versions g),
                       currentVersionId g))
        (getGroupById (snd (createPromptGroup env_ex ''G'' ''content'' None store_ex)) ''n0'')
       = Some ([Current], [Num 1], [''n1''], ''n1'')"
    by code_simp
  have ev2: "map_option (\<lambda>g. (map status (versions g), map version (versions g), map id_v (versions g),
                       currentVersionId g))
        (getGroupById (snd (createPromptGroup env_remote ''G'' ''content'' None store_ex)) ''r1'')
       = Some ([Current], [Num 1], [''rv1''], ''rv1'')"
    by code_simp
  note t1 = createPromptGroup_atomic[of env_ex "''G''" "''content''" None store_ex]
  note t2 = createPromptGroup_atomic[of env_remote "''G''" "''content''" None store_ex]
  note t3 = createPromptGroup_atomic[of env_full "''G''" "''content''" None store_ex]
  from t3 c1 have c2: "snd (createPromptGroup env_full ''G'' ''content'' None store_ex) = store_ex"
    by blast
  have "getGroupById store_ex ''n0'' = None" by code_simp
  with c2 have c3: "getGroupById (snd (createPromptGroup env_full ''G'' ''content'' None store_ex)) ''n0'' = None"
    by simp
  from t1 t2 a1 a2 b1 b2 c1 c2 c3 ev1 ev2 show ?thesis by blast
qed

subsection \<open>The push pass\<close>

lemma already_synced_members: "already_synced ids x \<longleftrightarrow> x \<in> members ids"
  by (cases ids) (simp_all add: already_synced_def Set_has_def)

lemma members_mark_synced: "members (mark_synced ids x) = insert x (members ids)"
  by (cases ids) (auto simp: mark_synced_def Set_add_def Set_has_def set_new_Set)

lemma members_foldl_mark_synced: "members (foldl mark_synced ids xs) = members ids \<union> set xs"
  by (induction xs arbitrary: ids) (auto simp: members_mark_synced)

lemma members_reload: "members (syncedVersionIds (reload g)) = members (syncedVersionIds g)"
  by (simp add: reload_def members_restore_serializable)

lemma creates_for_push_version:
  "creates_for x (push_version r rid v) = (if id_v v = x then 1 else 0)"
  by (simp add: creates_for_def push_version_def status_call_def split: option.splits)

lemma creates_for_append: "creates_for x (xs @ ys) = creates_for x xs + creates_for x ys"
  by (simp add: creates_for_def)

lemma creates_for_concat:
  "creates_for x (concat (map (push_version r rid) vs)) = length (filter (\<lambda>v. id_v v = x) vs)"
  by (induction vs) (simp_all add: creates_for_append creates_for_push_version, simp add: creates_for_def)

lemma sync_existing_marks:
  assumes "truthy (supabase_id g)"
  shows "members (syncedVersionIds (fst (snd (syncToSupabase_group r g))))
           = members (syncedVersionIds g)
             \<union> {x \<in> set (map id_v (versions g)). addVersion_answer r x \<noteq> None}"
  using assms
  by (auto simp: syncToSupabase_group_def Let_def members_foldl_mark_synced already_synced_members
        new_Set_def)

lemma sync_existing_skips:
  assumes "truthy (supabase_id g)" "x \<in> members (syncedVersionIds g)"
  shows "creates_for x (fst (syncToSupabase_group r g)) = 0"
  using assms
  by (auto simp: syncToSupabase_group_def Let_def creates_for_concat already_synced_members
        filter_empty_conv new_Set_def)

lemma sync_existing_creates:
  assumes "truthy (supabase_id g)" "x \<notin> members (syncedVersionIds g)"
  shows "creates_for x (fst (syncToSupabase_group r g)) = length (filter (\<lambda>v. id_v v = x) (versions g))"
proof -
  have f: "filter (\<lambda>v. id_v v = x) (filter (\<lambda>v. \<not> already_synced ids (id_v v)) vs)
          = filter (\<lambda>v. id_v v = x) vs" if "x \<notin> members ids" for ids vs
    using that by (induction vs) (auto simp: already_synced_members)
  show ?thesis
  proof (cases "syncedVersionIds g = NoIds")
    case True
    have "x \<notin> members (IdSet (new_Set []))" by (simp add: new_Set_def)
    note f1 = f[OF this]
    from True assms(1) show ?thesis
      by (simp add: syncToSupabase_group_def Let_def creates_for_concat f1 del: filter_filter)
  next
    case False
    note f2 = f[OF assms(2)]
    from False assms(1) show ?thesis
      by (simp add: syncToSupabase_group_def Let_def creates_for_concat f2 del: filter_filter)
  qed
qed

text \<open>
  For a group that already has a remote id, one pass marks exactly the versions whose
  remote creation succeeded, makes no call for a version that is marked, and a version
  that was not marked, occurs once and is accepted gets one creation in this pass and
  none in the next pass made on the group as stored and loaded again.
\<close>

theorem push_existing_group_once:
  "truthy (supabase_id g) \<longrightarrow>
     members (syncedVersionIds (fst (snd (syncToSupabase_group r g))))
       = members (syncedVersionIds g)
         \<union> {y \<in> set (map id_v (versions g)). addVersion_answer r y \<noteq> None}
     \<and> (x \<in> members (syncedVersionIds g) \<longrightarrow> creates_for x (fst (syncToSupabase_group r g)) = 0)
     \<and> (x \<notin> members (syncedVersionIds g) \<and> length (filter (\<lambda>v. id_v v = x) (versions g)) = 1
          \<and> addVersion_answer r x \<noteq> None \<longrightarrow>
            creates_for x (fst (syncToSupabase_group r g)) = 1
            \<and> creates_for x (fst (syncToSupabase_group r'
                 (reload (fst (snd (syncToSupabase_group r g)))))) = 0)"
proof (intro impI conjI)
  assume t: "truthy (supabase_id g)"
  let ?g1 = "fst (snd (syncToSupabase_group r g))"
  show m: "members (syncedVersionIds ?g1)
       = members (syncedVersionIds g)
         \<union> {y \<in> set (map id_v (versions g)). addVersion_answer r y \<noteq> None}"
    by (rule sync_existing_marks[OF t])
  show "creates_for x (fst (syncToSupabase_group r g)) = 0" if "x \<in> members (syncedVersionIds g)"
    using t that by (rule sync_existing_skips)
  assume h: "x \<notin> members (syncedVersionIds g) \<and> length (filter (\<lambda>v. id_v v = x) (versions g)) = 1
          \<and> addVersion_answer r x \<noteq> None"
  then show "creates_for x (fst (syncToSupabase_group r g)) = 1"
    by (simp add: sync_existing_creates[OF t])
  from h have "filter (\<lambda>v. id_v v = x) (versions g) \<noteq> []" by auto
  then have "x \<in> set (map id_v (versions g))" by (auto simp: filter_empty_conv)
  with h m have x: "x \<in> members (syncedVersionIds (reload ?g1))" by (simp add: members_reload)
  from t have "truthy (supabase_id (reload ?g1))"
    by (auto simp: syncToSupabase_group_def Let_def)
  from sync_existing_skips[OF this x]
  show "creates_for x (fst (syncToSupabase_group r' (reload ?g1))) = 0" .
qed

theorem push_existing_group_once_witness:
  "truthy (supabase_id g1_remote)
   \<and> ''v2'' \<notin> members (syncedVersionIds g1_remote)
   \<and> length (filter (\<lambda>v. id_v v = ''v2'') (versions g1_remote)) = 1
   \<and> addVersion_answer remote_ok ''v2'' \<noteq> None
   \<and> creates_for ''v2'' (fst (syncToSupabase_group remote_ok g1_remote)) = 1
   \<and> creates_for ''v2'' (fst (syncToSupabase_group remote_ok
        (reload (fst (snd (syncToSupabase_group remote_ok g1_remote)))))) = 0
   \<and> ''v2'' \<in> members (syncedVersionIds (reload (fst (snd (syncToSupabase_group remote_ok g1_remote)))))"
proof -
  have h1: "truthy (supabase_id g1_remote)" by (simp add: g1_remote_def truthy_def)
  have h2: "''v2'' \<notin> members (syncedVersionIds g1_remote)" by (simp add: g1_remote_def ex_defs)
  have h3: "length (filter (\<lambda>v. id_v v = ''v2'') (versions g1_remote)) = 1"
    by (simp add: g1_remote_def ex_defs)
  have h4: "addVersion_answer remote_ok ''v2'' \<noteq> None" by (simp add: remote_ok_def)
  have h5: "truthy (supabase_id (reload (fst (snd (syncToSupabase_group remote_ok g1_remote)))))"
    using h1 by (auto simp: syncToSupabase_group_def Let_def)
  have h6: "''v2'' \<in> members (syncedVersionIds (reload (fst (snd (syncToSupabase_group remote_ok g1_remote)))))"
    by code_simp
  from push_existing_group_once[of g1_remote remote_ok "''v2''" remote_ok] h1
  have k: "members (syncedVersionIds (fst (snd (syncToSupabase_group remote_ok g1_remote))))
       = members (syncedVersionIds g1_remote)
         \<union> {y \<in> set (map id_v (versions g1_remote)). addVersion_answer remote_ok y \<noteq> None}
     \<and> (''v2'' \<in> members (syncedVersionIds g1_remote) \<longrightarrow>
          creates_for ''v2'' (fst (syncToSupabase_group remote_ok g1_remote)) = 0)
     \<and> (''v2'' \<notin> members (syncedVersionIds g1_remote)
          \<and> length (filter (\<lambda>v. id_v v = ''v2'') (versions g1_remote)) = 1
          \<and> addVersion_answer remote_ok ''v2'' \<noteq> None \<longrightarrow>
            creates_for ''v2'' (fst (syncToSupabase_group remote_ok g1_remote)) = 1
            \<and> creates_for ''v2'' (fst (syncToSupabase_group remote_ok
                 (reload (fst (snd (syncToSupabase_group remote_ok g1_remote)))))) = 0)"
    by (rule mp)
  note k3 = k[THEN conjunct2, THEN conjunct2]
  from k3 h2 h3 h4
  have c1: "creates_for ''v2'' (fst (syncToSupabase_group remote_ok g1_remote)) = 1
      \<and> creates_for ''v2'' (fst (syncToSupabase_group remote_ok
           (reload (fst (snd (syncToSupabase_group remote_ok g1_remote)))))) = 0"
    by blast
  from push_existing_group_once[of "reload (fst (snd (syncToSupabase_group remote_ok g1_remote)))"
      remote_ok "''v2''" remote_ok, THEN mp, OF h5, THEN conjunct2, THEN conjunct1] h6
  have c2: "creates_for ''v2'' (fst (syncToSupabase_group remote_ok
        (reload (fst (snd (syncToSupabase_group remote_ok g1_remote)))))) = 0"
    by blast
  from c1 c2 h1 h2 h3 h4 h6 show ?thesis by blast
qed

text \<open>
  C6. The claim extends this to the versions pushed when the group itself is first
  created remotely. There the code does otherwise: a stored group without remote id,
  with versions \<open>v1\<close> and \<open>v2\<close>, the remote accepting every call. The first pass creates
  the group (from the content of \<open>v1\<close>) and \<open>v2\<close>, records the remote id and marks
  nothing; the second pass, on the store as the first left it, creates \<open>v1\<close> and \<open>v2\<close>
  again: two remote creations for \<open>v2\<close>.
\<close>

theorem push_twice_creates_twice:
  "fst (push_pass env_sync remote_ok store_unsynced)
     = [CreateGroup ''G'' ''text'' None, AddVersion ''v2'' ''remote-g1'' ''v'' ''text'',
        SetVersionStatus ''remote-v2'' Current]
   \<and> map supabase_id (getAllGroups (snd (push_pass env_sync remote_ok store_unsynced)))
       = [Some ''remote-g1'']
   \<and> map syncedVersionIds (getAllGroups (snd (push_pass env_sync remote_ok store_unsynced)))
       = [IdSet []]
   \<and> fst (push_pass env_sync remote_ok (snd (push_pass env_sync remote_ok store_unsynced)))
       = [AddVersion ''v1'' ''remote-g1'' ''v'' ''text'',
          AddVersion ''v2'' ''remote-g1'' ''v'' ''text'', SetVersionStatus ''remote-v2'' Current]
   \<and> creates_for ''v2'' (fst (push_pass env_sync remote_ok store_unsynced)
        @ fst (push_pass env_sync remote_ok (snd (push_pass env_sync remote_ok store_unsynced)))) = 2"
  by code_simp

subsection \<open>Doubles that hold integers\<close>

lemma binary_exponent_small: "x < 2 ^ 53 \<Longrightarrow> binary_exponent x = 0"
  by (subst binary_exponent.simps) simp

lemma binary_exponent_53: "binary_exponent (2 ^ 53) = 1"
proof -
  have "binary_exponent (2 ^ 53) = Suc (binary_exponent (2 ^ 52))"
    by (subst binary_exponent.simps) simp
  also have "binary_exponent (2 ^ 52) = 0" by (rule binary_exponent_small) simp
  finally show ?thesis by simp
qed

lemma round_magnitude_exact: "x \<le> 2 ^ 53 \<Longrightarrow> round_magnitude x = x"
proof (cases "x < 2 ^ 53")
  case True
  from binary_exponent_small[OF this] show ?thesis by (simp add: round_magnitude_def)
next
  case False
  assume "x \<le> 2 ^ 53"
  with False have x: "x = 2 ^ 53" by simp
  show ?thesis unfolding x round_magnitude_def binary_exponent_53 by (simp add: Let_def)
qed

lemma to_double_exact: "- (2 ^ 53) \<le> x \<Longrightarrow> x \<le> 2 ^ 53 \<Longrightarrow> to_double x = x"
  by (simp add: to_double_def round_magnitude_exact)

text \<open>
  Below \<open>2^53\<close> in magnitude the text of a number is its decimal numeral; some values of
  the rounding and of the text beyond.
\<close>

lemma significand_lower:
  "2 ^ 53 \<le> y \<Longrightarrow> 2 ^ 52 \<le> y div 2 ^ binary_exponent y"
proof (induction y rule: binary_exponent.induct)
  case (1 x)
  from "1.prems" have nlt: "\<not> x < 2 ^ 53" by simp
  then have be: "binary_exponent x = Suc (binary_exponent (x div 2))"
    by (subst binary_exponent.simps) simp
  have d: "x div 2 ^ Suc (binary_exponent (x div 2)) = (x div 2) div 2 ^ binary_exponent (x div 2)"
    by (simp add: zdiv_zmult2_eq)
  show ?case
  proof (cases "x div 2 < 2 ^ 53")
    case True
    then have "binary_exponent (x div 2) = 0" by (rule binary_exponent_small)
    with "1.prems" show ?thesis unfolding be d by simp
  next
    case False
    then have "2 ^ 53 \<le> x div 2" by simp
    from "1.IH"[OF nlt this] show ?thesis unfolding be d .
  qed
qed

lemma round_magnitude_large: "2 ^ 53 \<le> y \<Longrightarrow> 2 ^ 53 \<le> round_magnitude y"
proof -
  assume y: "2 ^ 53 \<le> y"
  let ?e = "binary_exponent y"
  from y have "\<not> y < 2 ^ 53" by simp
  then have "?e = Suc (binary_exponent (y div 2))" by (subst binary_exponent.simps) simp
  then have "(2::int) ^ 1 \<le> 2 ^ ?e" by (intro power_increasing) simp_all
  then have e: "(2::int) \<le> 2 ^ ?e" by simp
  from significand_lower[OF y] have q: "2 ^ 52 \<le> y div 2 ^ ?e" .
  have "(2::int) ^ 53 = 2 ^ 52 * 2" by simp
  also have "\<dots> \<le> (y div 2 ^ ?e) * 2 ^ ?e"
    using q e by (intro mult_mono) simp_all
  finally have a: "2 ^ 53 \<le> (y div 2 ^ ?e) * 2 ^ ?e" .
  have "(y div 2 ^ ?e) * 2 ^ ?e \<le> (y div 2 ^ ?e + 1) * 2 ^ ?e"
    by (intro mult_right_mono) simp_all
  with a have b: "2 ^ 53 \<le> (y div 2 ^ ?e + 1) * 2 ^ ?e" by (rule order_trans)
  have "round_magnitude y = (y div 2 ^ ?e) * 2 ^ ?e \<or> round_magnitude y = (y div 2 ^ ?e + 1) * 2 ^ ?e"
    unfolding round_magnitude_def Let_def by (rule if_split[THEN iffD2]) blast
  with a b show ?thesis by (elim disjE) (simp_all only:)
qed

lemma round_magnitude_fix: "0 \<le> x \<Longrightarrow> x < 2 ^ 53 \<Longrightarrow> round_magnitude y = x \<Longrightarrow> y = x"
proof -
  assume x: "0 \<le> x" "x < 2 ^ 53" and r: "round_magnitude y = x"
  show ?thesis
  proof (cases "y < 2 ^ 53")
    case True
    then have "round_magnitude y = y" by (intro round_magnitude_exact) simp
    with r show ?thesis by simp
  next
    case False
    then have "2 ^ 53 \<le> round_magnitude y" by (intro round_magnitude_large) simp
    with r x show ?thesis by simp
  qed
qed

lemma shortest_small: "0 \<le> x \<Longrightarrow> x < 2 ^ 53 \<Longrightarrow> shortest x j = x"
proof (induction j)
  case 0
  then show ?case by (simp add: shortest.simps)
next
  case (Suc j)
  let ?p = "(10::int) ^ Suc j"
  let ?lo = "(x div ?p) * ?p"
  let ?hi = "?lo + ?p"
  have lo: "round_magnitude ?lo = x \<Longrightarrow> ?lo = x"
    by (rule round_magnitude_fix[OF Suc.prems])
  have hi: "round_magnitude ?hi = x \<Longrightarrow> ?hi = x"
    by (rule round_magnitude_fix[OF Suc.prems])
  have "shortest x (Suc j) =
     (if round_magnitude ?lo = x \<and> round_magnitude ?hi = x
      then (if x - ?lo < ?hi - x then ?lo
            else if ?hi - x < x - ?lo then ?hi
            else if even (x div ?p) then ?lo else ?hi)
      else if round_magnitude ?lo = x then ?lo
      else if round_magnitude ?hi = x then ?hi
      else shortest x j)"
    by (simp only: shortest.simps Let_def)
  also have "\<dots> = x"
  proof (cases "round_magnitude ?lo = x")
    case True
    note l = lo[OF True]
    show ?thesis
    proof (cases "round_magnitude ?hi = x")
      case True
      from hi[OF True] l have False by simp
      then show ?thesis ..
    next
      case False
      with True l show ?thesis by (simp only: if_True if_False simp_thms)
    qed
  next
    case False
    show ?thesis
    proof (cases "round_magnitude ?hi = x")
      case True
      with False hi[OF True] show ?thesis by (simp only: if_True if_False simp_thms)
    next
      case f2: False
      with False Suc.IH[OF Suc.prems] show ?thesis by (simp only: if_True if_False simp_thms)
    qed
  qed
  finally show ?case .
qed

lemma Number_toString_small:
  "\<bar>x\<bar> < 2 ^ 53 \<Longrightarrow> Number_toString x = (if x < 0 then CHR ''-'' # digits (- x) else digits x)"
proof -
  assume a: "\<bar>x\<bar> < 2 ^ 53"
  have "(2::int) ^ 53 < 10 ^ 21" by simp
  with a have lt: "\<bar>x\<bar> < 10 ^ 21" by (rule less_trans)
  have "0 \<le> \<bar>x\<bar>" by simp
  from shortest_small[OF this a] have sh: "shortest \<bar>x\<bar> (length (digits \<bar>x\<bar>)) = \<bar>x\<bar>" .
  show ?thesis unfolding Number_toString_def Let_def sh using lt by (simp add: abs_if)
qed

lemma Number_toString_examples:
  "Number_toString 0 = ''0''"
  "Number_toString 12 = ''12''"
  "Number_toString (- 305) = ''-305''"
  "Number_toString (2 ^ 53) = ''9007199254740992''"
  "Number_toString (2 ^ 62) = ''4611686018427388000''"
  "Number_toString (10 ^ 21) = ''1e+21''"
  "Number_toString (2 ^ 70) = ''1.1805916207174113e+21''"
  by code_simp+

lemma to_double_examples:
  "to_double (2 ^ 53 + 1) = 2 ^ 53"
  "to_double (2 ^ 53 + 3) = 2 ^ 53 + 4"
  "to_double (- (2 ^ 53) - 1) = - (2 ^ 53)"
  "to_double (2 ^ 54 + 1) = 2 ^ 54"
  "to_double (2 ^ 54 + 2) = 2 ^ 54"
  "to_double (2 ^ 54 + 6) = 2 ^ 54 + 8"
  by code_simp+

subsection \<open>Version numbers\<close>

lemma Max_insert_max:
  "Max (insert (max m n) (set ns)) = Max (insert (m::int) (insert n (set ns)))"
  by (cases "ns = []") (simp_all add: max.assoc)

lemma Math_max_step:
  "foldl (\<lambda>highest x. if js_less highest x then ToNumber x else highest) (Num m) (map Num ns)
     = Num (Max (insert m (set ns)))"
proof (induction ns arbitrary: m)
  case Nil
  then show ?case by simp
next
  case (Cons n ns)
  have less: "js_less (Num m) (Num n) = (m < n)" by (simp add: js_less_def)
  have "foldl (\<lambda>highest x. if js_less highest x then ToNumber x else highest) (Num m) (map Num (n # ns))
      = foldl (\<lambda>highest x. if js_less highest x then ToNumber x else highest) (Num (max m n)) (map Num ns)"
    by (simp add: less max_def)
  also have "\<dots> = Num (Max (insert (max m n) (set ns)))" by (rule Cons.IH)
  also have "\<dots> = Num (Max (insert m (set (n # ns))))" by (simp only: Max_insert_max list.set)
  finally show ?case .
qed

lemma Math_max_Num: "ns \<noteq> [] \<Longrightarrow> Math_max (map Num ns) = Num (Max (set ns))"
proof (cases ns)
  case Nil
  then show "ns \<noteq> [] \<Longrightarrow> ?thesis" by simp
next
  case (Cons n ns')
  then show ?thesis
    using Math_max_step[of n ns'] by (simp add: Math_max_def js_less_def)
qed

lemma versions_with_newVersion:
  "map version (versions (with_newVersion t nv g)) = map version (versions g) @ [version nv]"
  by (simp add: with_newVersion_def Let_def comp_def if_distrib[of version] cong: if_cong)

lemma id_g_with_newVersion [simp]: "id_g (with_newVersion t nv g) = id_g g"
  by (simp add: with_newVersion_def Let_def)

lemma map_version_JSON:
  "map version vs = map Num ns \<Longrightarrow> map version (map JSON_version vs) = map Num ns"
proof (induction vs arbitrary: ns)
  case Nil
  then show ?case by simp
next
  case (Cons v vs)
  then obtain n ns' where "ns = n # ns'" "version v = Num n" "map version vs = map Num ns'"
    by (cases ns) auto
  with Cons.IH[of ns'] show ?case by (simp add: JSON_version_def)
qed

lemma findIndex_map: "findIndex P (map f xs) = findIndex (\<lambda>x. P (f x)) xs"
  by (induction xs) auto

lemma findIndex_id_g_cong:
  "map id_g gs' = map id_g gs \<Longrightarrow>
   findIndex (\<lambda>g. id_g g = gid) gs' = findIndex (\<lambda>g. id_g g = gid) gs"
  using findIndex_map[of "\<lambda>i. i = gid" id_g gs'] findIndex_map[of "\<lambda>i. i = gid" id_g gs]
  by simp

lemma find_findIndex: "find P xs = Some y \<Longrightarrow> \<exists>j. findIndex P xs = Some j \<and> xs ! j = y"
  by (induction xs) (auto split: if_splits)

lemma version_newVersion_of:
  assumes "map version (versions g) = map Num ns" "ns \<noteq> []"
    "- (2 ^ 53) \<le> Max (set ns)" "Max (set ns) < 2 ^ 53"
  shows "version (newVersion_of e gid c opts g) = Num (Max (set ns) + 1)"
proof -
  from assms(3,4) have "to_double (Max (set ns) + 1) = Max (set ns) + 1"
    by (intro to_double_exact) simp_all
  with assms(1,2) show ?thesis by (simp add: newVersion_of_def Math_max_Num)
qed

lemma addVersion_number:
  assumes "findIndex (\<lambda>g. id_g g = gid) (getAllGroups st) = Some j"
    "map version (versions (getAllGroups st ! j)) = map Num ns" "ns \<noteq> []"
    "- (2 ^ 53) \<le> Max (set ns)" "Max (set ns) < 2 ^ 53"
  shows "map_option version (fst (addVersion e gid c opts st)) = Some (Num (Max (set ns) + 1))"
  by (simp add: addVersion_found[OF assms(1)] version_newVersion_of[OF assms(2,3,4,5)])

lemma addVersion_step:
  assumes "findIndex (\<lambda>g. id_g g = gid) (getAllGroups st) = Some j" "setItem_ok e"
    "map version (versions (getAllGroups st ! j)) = map Num ns" "ns \<noteq> []"
    "- (2 ^ 53) \<le> Max (set ns)" "Max (set ns) < 2 ^ 53"
  shows "findIndex (\<lambda>g. id_g g = gid) (getAllGroups (snd (addVersion e gid c opts st))) = Some j"
    and "map version (versions (getAllGroups (snd (addVersion e gid c opts st)) ! j))
           = map Num (ns @ [Max (set ns) + 1])"
proof -
  let ?gs = "getAllGroups st"
  let ?nv = "newVersion_of e gid c opts (?gs ! j)"
  let ?g' = "with_newVersion (now e) ?nv (?gs ! j)"
  from findIndex_Some[OF assms(1)] have j: "j < length ?gs" by simp
  have nv: "version ?nv = Num (Max (set ns) + 1)"
    by (rule version_newVersion_of[OF assms(3,4,5,6)])
  have gs': "getAllGroups (snd (addVersion e gid c opts st)) = map reload (?gs[j := ?g'])"
    by (simp add: addVersion_found[OF assms(1)] getAllGroups_after_set assms(2))
  have "map id_g (map reload (?gs[j := ?g'])) = map id_g ?gs"
    by (simp add: comp_def map_update list_update_same_conv[THEN iffD2] j)
  from findIndex_id_g_cong[OF this] assms(1)
  show "findIndex (\<lambda>g. id_g g = gid) (getAllGroups (snd (addVersion e gid c opts st))) = Some j"
    by (simp add: gs')
  have "map version (versions ?g') = map Num (ns @ [Max (set ns) + 1])"
    by (simp add: versions_with_newVersion assms(3) nv)
  from map_version_JSON[OF this] j
  show "map version (versions (getAllGroups (snd (addVersion e gid c opts st)) ! j))
           = map Num (ns @ [Max (set ns) + 1])"
    by (simp add: gs')
qed

lemma returned_callbacks:
  "\<not> list_ex is_Call events \<Longrightarrow> returned (foldl (step gid) s events) = returned s"
proof (induction events arbitrary: s)
  case Nil
  then show ?case by simp
next
  case (Cons ev events)
  then have "\<not> is_Call ev" "\<not> list_ex is_Call events" by simp_all
  from this(1) have "returned (step gid s ev) = returned s"
    by (cases ev) (simp_all split: option.splits prod.splits)
  with Cons.IH[OF \<open>\<not> list_ex is_Call events\<close>, of "step gid s ev"] show ?case by simp
qed

lemma calls_of_callbacks: "\<not> list_ex is_Call events \<Longrightarrow> calls_of events = 0"
  by (induction events) (simp_all add: calls_of_def)

lemma syncToSupabase_not_configured:
  "\<not> supabaseConfigured e \<Longrightarrow> snd (syncToSupabase (e\<lparr>setItem_ok := ok\<rparr>) r groups st) = st"
  by (simp add: syncToSupabase_def)

lemma step_callback_quiet:
  assumes "quiet s" "\<not> is_Call ev"
  shows "cache (step gid s ev) = cache s" and "returned (step gid s ev) = returned s"
    and "quiet (step gid s ev)"
proof -
  show "cache (step gid s ev) = cache s"
  proof (cases ev)
    case (Call e c opts)
    with assms(2) show ?thesis by simp
  next
    case (PushDone k r ok)
    show ?thesis
    proof (cases "k < length (pushes s)")
      case True
      with assms(1) have "case pushes s ! k of None \<Rightarrow> True | Some (e, groups) \<Rightarrow> \<not> supabaseConfigured e"
        by (simp add: quiet_def list_all_length)
      then show ?thesis using True PushDone
        by (auto simp: syncToSupabase_not_configured split: option.splits)
    next
      case False
      with PushDone show ?thesis by simp
    qed
  next
    case (PullDone groups ok)
    with assms(1) show ?thesis by (simp add: quiet_def)
  qed
  from assms(2) show "returned (step gid s ev) = returned s"
    by (cases ev) (simp_all split: option.splits prod.splits)
  show "quiet (step gid s ev)"
  proof (cases ev)
    case (Call e c opts)
    with assms(2) show ?thesis by simp
  next
    case (PushDone k r ok)
    have "list_all P xs \<Longrightarrow> P None \<Longrightarrow> list_all P (xs[k := None])" for P and xs :: "(env \<times> PromptGroup list) option list"
      by (auto simp: list_all_iff dest: set_update_subset_insert[THEN subsetD])
    with assms(1) PushDone show ?thesis
      by (auto simp: quiet_def split: option.splits)
  next
    case (PullDone groups ok)
    with assms(1) show ?thesis by (simp add: quiet_def)
  qed
qed

lemma step_Call_quiet:
  assumes "quiet s" "\<not> supabaseConfigured e"
  shows "quiet (step gid s (Call e c opts))"
  using assms by (auto simp: quiet_def addVersion_pushed_def split: option.splits)

lemma addVersion_pushed_written:
  "snd (addVersion e gid c opts st) =
     (case addVersion_pushed e gid c opts st of
        None \<Rightarrow> st
      | Some (e', groups) \<Rightarrow> snd (localStorage_set (setItem_ok e) groups st))"
proof (cases "findIndex (\<lambda>g. id_g g = gid) (getAllGroups st)")
  case None
  then show ?thesis by (simp add: addVersion_def addVersion_pushed_def)
next
  case (Some j)
  then show ?thesis by (simp add: addVersion_found addVersion_pushed_def)
qed

lemma calls_of_Call: "calls_of (Call e c opts # events) = Suc (calls_of events)"
  by (simp add: calls_of_def)

lemma calls_of_callback: "\<not> is_Call ev \<Longrightarrow> calls_of (ev # events) = calls_of events"
  by (simp add: calls_of_def)

lemma numbers_shift:
  "Some (Num (M + 1)) # map (\<lambda>k. Some (Num (M + 1 + int k))) [1..<Suc n]
     = map (\<lambda>k. Some (Num (M + int k))) [1..<Suc (Suc n)]"
proof -
  have sh: "map (\<lambda>k. Some (Num (M + 1 + int k))) xs
        = map (\<lambda>k. Some (Num (M + int k))) (map Suc xs)" for xs
    by (simp add: comp_def algebra_simps)
  have shift: "map (\<lambda>k. Some (Num (M + 1 + int k))) [1..<Suc n]
        = map (\<lambda>k. Some (Num (M + int k))) [Suc 1..<Suc (Suc n)]"
    unfolding sh map_Suc_upt ..
  have up: "[1..<Suc (Suc n)] = 1 # [Suc 1..<Suc (Suc n)]"
    by (rule upt_conv_Cons) simp
  show ?thesis unfolding shift up by simp
qed

lemma addVersion_run_numbers:
  assumes "findIndex (\<lambda>g. id_g g = gid) (getAllGroups (cache s)) = Some j"
    "map version (versions (getAllGroups (cache s) ! j)) = map Num ns" "ns \<noteq> []"
    "- (2 ^ 53) \<le> Max (set ns)" "Max (set ns) + int (calls_of events) \<le> 2 ^ 53"
    "list_all write_ok events"
    "calls_first events \<or> (list_all local_call events \<and> quiet s)"
  shows "map (map_option version) (returned (addVersion_run events gid s))
       = map (map_option version) (returned s)
         @ map (\<lambda>k. Some (Num (Max (set ns) + int k))) [1..<Suc (calls_of events)]"
  using assms
proof (induction events arbitrary: s ns)
  case Nil
  then show ?case by (simp add: addVersion_run_def calls_of_def)
next
  case (Cons ev events)
  let ?M = "Max (set ns)"
  let ?s1 = "step gid s ev"
  have run: "addVersion_run (ev # events) gid s = addVersion_run events gid ?s1"
    by (simp add: addVersion_run_def)
  from Cons.prems(6) have w: "write_ok ev" "list_all write_ok events" by simp_all
  show ?case
  proof (cases "is_Call ev")
    case True
    then obtain e c opts where ev: "ev = Call e c opts" by (cases ev) auto
    from w(1) ev have ok: "setItem_ok e" by simp
    from Cons.prems(5) ev have b: "?M < 2 ^ 53" "?M + 1 + int (calls_of events) \<le> 2 ^ 53"
      by (simp_all add: calls_of_Call)
    have c1: "cache ?s1 = snd (addVersion e gid c opts (cache s))"
      and r1: "returned ?s1 = returned s @ [fst (addVersion e gid c opts (cache s))]"
      by (simp_all add: ev)
    note st = addVersion_step[OF Cons.prems(1) ok Cons.prems(2,3,4) b(1), of c opts]
    note nr = addVersion_number[OF Cons.prems(1,2,3,4) b(1), of e c opts]
    have M: "Max (set (ns @ [?M + 1])) = ?M + 1"
      using Cons.prems(3) by (simp add: max_def)
    have ne: "ns @ [?M + 1] \<noteq> []" by simp
    from Cons.prems(4) have lo: "- (2 ^ 53) \<le> Max (set (ns @ [?M + 1]))" unfolding M by simp
    from b(2) have hi: "Max (set (ns @ [?M + 1])) + int (calls_of events) \<le> 2 ^ 53" unfolding M .
    from Cons.prems(7) ev have q: "calls_first events \<or> (list_all local_call events \<and> quiet ?s1)"
      using step_Call_quiet[of s e gid c opts] by auto
    from Cons.IH[of ?s1 "ns @ [?M + 1]", unfolded c1, OF st(1) st(2) ne lo hi w(2) q[unfolded c1[symmetric]]]
    have IH: "map (map_option version) (returned (addVersion_run events gid ?s1))
       = map (map_option version) (returned ?s1)
         @ map (\<lambda>k. Some (Num (?M + 1 + int k))) [1..<Suc (calls_of events)]"
      unfolding M c1 .
    have "map (map_option version) (returned ?s1)
        = map (map_option version) (returned s) @ [Some (Num (?M + 1))]"
      unfolding r1 using nr by simp
    with IH have "map (map_option version) (returned (addVersion_run events gid ?s1))
       = map (map_option version) (returned s)
         @ (Some (Num (?M + 1)) # map (\<lambda>k. Some (Num (?M + 1 + int k))) [1..<Suc (calls_of events)])"
      by simp
    then have "map (map_option version) (returned (addVersion_run (ev # events) gid s))
       = map (map_option version) (returned s)
         @ map (\<lambda>k. Some (Num (?M + int k))) [1..<Suc (Suc (calls_of events))]"
      unfolding run numbers_shift .
    moreover have "calls_of (ev # events) = Suc (calls_of events)"
      by (simp add: ev calls_of_Call)
    ultimately show ?thesis by simp
  next
    case False
    from False have r1: "returned ?s1 = returned s"
      by (cases ev) (simp_all split: option.splits prod.splits)
    from Cons.prems(7) False
    consider (last) "\<not> list_ex is_Call events" | (local) "list_all local_call events" "quiet s"
      by auto
    then show ?thesis
    proof cases
      case last
      from returned_callbacks[OF last, of gid ?s1] calls_of_callbacks[OF last] False
      show ?thesis unfolding run by (simp add: addVersion_run_def r1 calls_of_callback)
    next
      case local
      note cb = step_callback_quiet[OF local(2) False, of gid]
      from Cons.prems(5) False have hi: "?M + int (calls_of events) \<le> 2 ^ 53"
        by (simp add: calls_of_callback)
      from Cons.IH[of ?s1 ns, unfolded cb(1), OF Cons.prems(1,2,3,4) hi w(2)] local(1) cb(3)
      have "map (map_option version) (returned (addVersion_run events gid ?s1))
       = map (map_option version) (returned ?s1)
         @ map (\<lambda>k. Some (Num (?M + int k))) [1..<Suc (calls_of events)]"
        by (simp add: cb(1))
      then show ?thesis unfolding run r1 by (simp add: calls_of_callback False)
    qed
  qed
qed

lemma quiet_at_rest: "quiet (at_rest st)"
  by (simp add: quiet_def at_rest_def)

lemma quiet_createPromptGroup_run:
  "\<not> supabaseConfigured e \<Longrightarrow> quiet (createPromptGroup_run e n c d st)"
  by (simp add: quiet_def createPromptGroup_run_def createPromptGroup_pushed_def)

lemma addVersion_run_existing_group:
  assumes "findIndex (\<lambda>g. id_g g = gid) (getAllGroups st) = Some j"
    "map version (versions (getAllGroups st ! j)) = map Num ns" "ns \<noteq> []"
    "- (2 ^ 53) \<le> Max (set ns)" "Max (set ns) + int (calls_of events) \<le> 2 ^ 53"
    "list_all write_ok events" "calls_first events \<or> list_all local_call events"
  shows "map (map_option version) (returned (addVersion_run events gid (at_rest st)))
       = map (\<lambda>k. Some (Num (Max (set ns) + int k))) [1..<Suc (calls_of events)]"
proof -
  have c: "cache (at_rest st) = st" and r: "returned (at_rest st) = []"
    by (simp_all add: at_rest_def)
  from assms(7) quiet_at_rest[of st]
  have q: "calls_first events \<or> (list_all local_call events \<and> quiet (at_rest st))" by blast
  from addVersion_run_numbers[of gid "at_rest st" j ns events, unfolded c, OF assms(1-6) q]
  show ?thesis by (simp add: r)
qed

lemma addVersion_run_fresh_group:
  assumes "setItem_ok e0" "generateId e0 0 \<notin> set (map id_g (getAllGroups st))"
    "int (calls_of events) < 2 ^ 53" "list_all write_ok events"
    "calls_first events \<or> (\<not> supabaseConfigured e0 \<and> list_all local_call events)"
  shows "map (map_option version)
           (returned (addVersion_run events (id_g (fst (createPromptGroup e0 n c0 d st)))
                  (createPromptGroup_run e0 n c0 d st)))
         = map (\<lambda>k. Some (Num (int k + 1))) [1..<Suc (calls_of events)]"
proof -
  let ?grp = "fst (createPromptGroup e0 n c0 d st)"
  let ?st1 = "snd (createPromptGroup e0 n c0 d st)"
  let ?s = "createPromptGroup_run e0 n c0 d st"
  have c: "cache ?s = ?st1" and r: "returned ?s = []"
    by (simp_all add: createPromptGroup_run_def)
  from createPromptGroup_stored[OF assms(1,2), of n c0 d]
  have "find (\<lambda>g. id_g g = id_g ?grp) (getAllGroups ?st1) = Some (reload ?grp)"
    by (simp add: getGroupById_def)
  from find_findIndex[OF this] obtain j where
    j: "findIndex (\<lambda>g. id_g g = id_g ?grp) (getAllGroups ?st1) = Some j"
       "getAllGroups ?st1 ! j = reload ?grp"
    by blast
  from initial_version_reload[OF createPromptGroup_result[of e0 n c0 d st]]
  have "map version (versions (reload ?grp)) = map Num [1]"
    by (auto simp: initial_version_def split: list.splits)
  with j(2) have v: "map version (versions (getAllGroups ?st1 ! j)) = map Num [1]" by simp
  have ne: "[1::int] \<noteq> []" by simp
  have lo: "- (2 ^ 53) \<le> Max (set [1::int])" by simp
  from assms(3) have hi: "Max (set [1::int]) + int (calls_of events) \<le> 2 ^ 53" by simp
  from assms(5) quiet_createPromptGroup_run[of e0 n c0 d st]
  have q: "calls_first events \<or> (list_all local_call events \<and> quiet ?s)" by blast
  from addVersion_run_numbers[of "id_g ?grp" ?s j "[1]" events, unfolded c, OF j(1) v ne lo hi assms(4) q]
  show ?thesis by (simp add: r add.commute)
qed

text \<open>
  C4. For a group that is found and whose versions carry the integers \<open>ns\<close> (at least
  one) as version numbers, the greatest of them \<open>M\<close> with \<open>-2^53 \<le> M\<close>:
  \<^item> if \<open>M < 2^53\<close>, \<^verbatim>\<open>addVersion\<close> returns a version whose number is \<open>M + 1\<close>;
  \<^item> in a run that starts with no callback pending, in which every \<^verbatim>\<open>addVersion\<close> call
    on the group has its write succeed, and in which no callback runs before a call
    (the calls come first, or each is made with Supabase not configured), the \<open>k\<close>-th
    call returns the number \<open>M + k\<close>, as long as that is at most \<open>2^53\<close>;
  \<^item> and after \<^verbatim>\<open>createPromptGroup\<close> (its write succeeding, the generated id new), such
    a run of \<open>N\<close> calls on the returned group's id returns the numbers 2, 3, ..., \<open>N + 1\<close>.
\<close>

theorem addVersion_numbers:
  "(findIndex (\<lambda>g. id_g g = groupId) (getAllGroups st) = Some j
      \<and> map version (versions (getAllGroups st ! j)) = map Num ns \<and> ns \<noteq> []
      \<and> - (2 ^ 53) \<le> Max (set ns) \<and> Max (set ns) < 2 ^ 53
     \<longrightarrow> map_option version (fst (addVersion e groupId c options st)) = Some (Num (Max (set ns) + 1)))
   \<and> (findIndex (\<lambda>g. id_g g = groupId) (getAllGroups st) = Some j
      \<and> map version (versions (getAllGroups st ! j)) = map Num ns \<and> ns \<noteq> []
      \<and> - (2 ^ 53) \<le> Max (set ns) \<and> Max (set ns) + int (calls_of events) \<le> 2 ^ 53
      \<and> list_all write_ok events \<and> (calls_first events \<or> list_all local_call events)
     \<longrightarrow> map (map_option version) (returned (addVersion_run events groupId (at_rest st)))
          = map (\<lambda>k. Some (Num (Max (set ns) + int k))) [1..<Suc (calls_of events)])
   \<and> (setItem_ok e0 \<and> generateId e0 0 \<notin> set (map id_g (getAllGroups st))
      \<and> int (calls_of events) < 2 ^ 53
      \<and> list_all write_ok events
      \<and> (calls_first events \<or> (\<not> supabaseConfigured e0 \<and> list_all local_call events))
     \<longrightarrow> map (map_option version)
           (returned (addVersion_run events
                        (id_g (fst (createPromptGroup e0 name' content' description' st)))
                        (createPromptGroup_run e0 name' content' description' st)))
          = map (\<lambda>k. Some (Num (int k + 1))) [1..<Suc (calls_of events)])"
  using addVersion_number addVersion_run_existing_group addVersion_run_fresh_group
  by blast

theorem addVersion_numbers_witness:
  "findIndex (\<lambda>g. id_g g = ''g1'') (getAllGroups store_ex) = Some 0
   \<and> map version (versions (getAllGroups store_ex ! 0)) = map Num [1, 2]
   \<and> [1, 2 :: int] \<noteq> []
   \<and> - (2 ^ 53) \<le> Max (set [1, 2 :: int])
   \<and> Max (set [1, 2 :: int]) < 2 ^ 53
   \<and> Max (set [1, 2 :: int]) + int (calls_of events_local) \<le> 2 ^ 53
   \<and> list_all write_ok events_local
   \<and> list_all local_call events_local
   \<and> setItem_ok env_ex
   \<and> \<not> supabaseConfigured env_ex
   \<and> generateId env_ex 0 \<notin> set (map id_g (getAllGroups store_ex))
   \<and> int (calls_of events_local) < 2 ^ 53
   \<and> map_option version (fst (addVersion (env_id ''a1'' env_ex) ''g1'' ''a'' opts_none store_ex))
       = Some (Num (Max (set [1, 2]) + 1))
   \<and> map (map_option version) (returned (addVersion_run events_local ''g1'' (at_rest store_ex)))
       = map (\<lambda>k. Some (Num (Max (set [1, 2]) + int k))) [1..<Suc (calls_of events_local)]
   \<and> map (\<lambda>k. Some (Num (Max (set [1, 2]) + int k))) [1..<Suc (calls_of events_local)]
       = [Some (Num 3), Some (Num 4), Some (Num 5)]
   \<and> map (map_option version)
        (returned (addVersion_run events_local
                     (id_g (fst (createPromptGroup env_ex ''G'' ''content'' None store_ex)))
                     (createPromptGroup_run env_ex ''G'' ''content'' None store_ex)))
       = map (\<lambda>k. Some (Num (int k + 1))) [1..<Suc (calls_of events_local)]
   \<and> map (\<lambda>k. Some (Num (int k + 1))) [1..<Suc (calls_of events_local)]
       = [Some (Num 2), Some (Num 3), Some (Num 4)]
   \<and> setItem_ok env_sync
   \<and> supabaseConfigured env_sync
   \<and> generateId env_sync 0 \<notin> set (map id_g (getAllGroups None))
   \<and> int (calls_of events_sync) < 2 ^ 53
   \<and> list_all write_ok events_sync
   \<and> calls_first events_sync
   \<and> map (map_option version)
        (returned (addVersion_run events_sync
                     (id_g (fst (createPromptGroup env_sync ''G'' ''content'' None None)))
                     (createPromptGroup_run env_sync ''G'' ''content'' None None)))
       = map (\<lambda>k. Some (Num (int k + 1))) [1..<Suc (calls_of events_sync)]
   \<and> map (\<lambda>k. Some (Num (int k + 1))) [1..<Suc (calls_of events_sync)]
       = [Some (Num 2), Some (Num 3)]"
proof -
  have n1: "calls_of events_local = 3"
    by (simp add: calls_of_def events_local_def)
  have n2: "calls_of events_sync = 2"
    by (simp add: calls_of_def events_sync_def)
  have h1: "findIndex (\<lambda>g. id_g g = ''g1'') (getAllGroups store_ex) = Some 0"
    by (simp add: getAllGroups_store_ex ex_defs)
  have h2: "map version (versions (getAllGroups store_ex ! 0)) = map Num [1, 2]"
    by (simp add: getAllGroups_store_ex ex_defs)
  have h3: "[1, 2 :: int] \<noteq> []" by simp
  have h4: "- (2 ^ 53) \<le> Max (set [1, 2 :: int])" by simp
  have h5: "Max (set [1, 2 :: int]) < 2 ^ 53" by simp
  have h6: "Max (set [1, 2 :: int]) + int (calls_of events_local) \<le> 2 ^ 53"
    unfolding n1 by simp
  have h7: "list_all write_ok events_local"
    by (simp add: events_local_def env_id_def env_ex_def)
  have h8: "list_all local_call events_local"
    by (simp add: events_local_def env_id_def env_ex_def)
  have h9: "setItem_ok env_ex" by (simp add: env_ex_def)
  have h10: "\<not> supabaseConfigured env_ex" by (simp add: env_ex_def)
  have h11: "generateId env_ex 0 \<notin> set (map id_g (getAllGroups store_ex))"
    by (simp add: getAllGroups_store_ex ex_defs)
  have h12: "int (calls_of events_local) < 2 ^ 53" unfolding n1 by simp
  have v1: "map (\<lambda>k. Some (Num (Max (set [1, 2]) + int k))) [1..<Suc (calls_of events_local)]
       = [Some (Num 3), Some (Num 4), Some (Num 5)]"
    unfolding n1 by (simp add: upt_rec)
  have v2: "map (\<lambda>k. Some (Num (int k + 1))) [1..<Suc (calls_of events_local)]
       = [Some (Num 2), Some (Num 3), Some (Num 4)]"
    unfolding n1 by (simp add: upt_rec)
  have k1: "setItem_ok env_sync" by (simp add: env_sync_def env_ex_def)
  have k2: "supabaseConfigured env_sync" by (simp add: env_sync_def)
  have k3: "generateId env_sync 0 \<notin> set (map id_g (getAllGroups None))"
    by (simp add: getAllGroups_def localStorage_get_def)
  have k4: "int (calls_of events_sync) < 2 ^ 53" unfolding n2 by simp
  have k5: "list_all write_ok events_sync"
    by (simp add: events_sync_def env_id_def env_sync_def env_ex_def)
  have k6: "calls_first events_sync"
    by (simp add: events_sync_def)
  have v3: "map (\<lambda>k. Some (Num (int k + 1))) [1..<Suc (calls_of events_sync)]
       = [Some (Num 2), Some (Num 3)]"
    unfolding n2 by (simp add: upt_rec)
  note t1 = addVersion_numbers[where groupId = "''g1''" and st = store_ex and j = 0
      and ns = "[1, 2]" and e = "env_id ''a1'' env_ex" and c = "''a''" and options = opts_none
      and events = events_local and ?e0.0 = env_ex and name' = "''G''"
      and content' = "''content''" and description' = None]
  note t2 = addVersion_numbers[where st = None and events = events_sync and ?e0.0 = env_sync
      and name' = "''G''" and content' = "''content''" and description' = None]
  from t1 h1 h2 h3 h4 h5
  have c1: "map_option version (fst (addVersion (env_id ''a1'' env_ex) ''g1'' ''a'' opts_none store_ex))
       = Some (Num (Max (set [1, 2]) + 1))"
    by blast
  from t1 h1 h2 h3 h4 h6 h7 h8
  have c2: "map (map_option version) (returned (addVersion_run events_local ''g1'' (at_rest store_ex)))
       = map (\<lambda>k. Some (Num (Max (set [1, 2]) + int k))) [1..<Suc (calls_of events_local)]"
    by blast
  from t1 h9 h10 h11 h12 h7 h8
  have c3: "map (map_option version)
        (returned (addVersion_run events_local
                     (id_g (fst (createPromptGroup env_ex ''G'' ''content'' None store_ex)))
                     (createPromptGroup_run env_ex ''G'' ''content'' None store_ex)))
       = map (\<lambda>k. Some (Num (int k + 1))) [1..<Suc (calls_of events_local)]"
    by blast
  from t2 k1 k3 k4 k5 k6
  have c4: "map (map_option version)
        (returned (addVersion_run events_sync
                     (id_g (fst (createPromptGroup env_sync ''G'' ''content'' None None)))
                     (createPromptGroup_run env_sync ''G'' ''content'' None None)))
       = map (\<lambda>k. Some (Num (int k + 1))) [1..<Suc (calls_of events_sync)]"
    by blast
  show ?thesis
    by (intro conjI) (fact h1 h2 h3 h4 h5 h6 h7 h8 h9 h10 h11 h12 c1 c2 v1 c3 v2 k1 k2 k3 k4 k5 k6 c4 v3)+
qed

text \<open>
  Inputs at which the numbers differ. A group whose only version has the number \<open>2^53\<close>
  gets a second version with the number \<open>2^53\<close>. On a group just created, two calls whose
  writes fail both return 2. And with Supabase configured, when the callbacks of the
  first call's push run after the second call, they write the first call's array over
  the cache and the third call returns 3 again.
\<close>

theorem addVersion_numbers_counterexample:
  "map version (versions (getAllGroups store_big ! 0)) = [Num (2 ^ 53)]
   \<and> map_option version (fst (addVersion env_ex ''big'' ''a'' opts_none store_big))
       = Some (Num (2 ^ 53))
   \<and> map (map_option version)
        (returned (addVersion_run events_full
                     (id_g (fst (createPromptGroup env_ex ''G'' ''content'' None store_ex)))
                     (createPromptGroup_run env_ex ''G'' ''content'' None store_ex)))
       = [Some (Num 2), Some (Num 2)]
   \<and> map (map_option version)
        (returned (addVersion_run events_overwritten
                     (id_g (fst (createPromptGroup env_sync ''G'' ''content'' None None)))
                     (createPromptGroup_run env_sync ''G'' ''content'' None None)))
       = [Some (Num 2), Some (Num 3), Some (Num 3)]"
  by code_simp

subsection \<open>The stored entry stays JSON\<close>

text \<open>
  The hypothesis \<open>json_storage\<close> of the theorems above is an invariant of the store: it
  holds of the absent entry (\<open>json_storage_None\<close>), and every operation keeps it.
\<close>

lemma json_storage_set: "json_storage st \<Longrightarrow> json_storage (snd (localStorage_set ok gs st))"
  by (cases ok) (simp_all add: json_storage_after_set, simp add: localStorage_set_def)

lemma json_storage_operations:
  assumes "json_storage st"
  shows "json_storage (snd (createPromptGroup e n c d st))"
    and "json_storage (snd (addVersion e gid c opts st))"
    and "json_storage (snd (setVersionStatus e vid s st))"
    and "json_storage (snd (deleteVersion e vid st))"
    and "json_storage (snd (updateGroup e gid gu st))"
    and "json_storage (snd (updateVersion e vid vu st))"
    and "json_storage (snd (syncToSupabase e r gs st))"
  using assms
  by (simp_all add: createPromptGroup_def addVersion_def setVersionStatus_def deleteVersion_def
        updateGroup_def updateVersion_def syncToSupabase_def Let_def json_storage_set
        split: option.splits)

end
